theory Spec2Isabelle
  imports Complex_Main "HOL-Library.Multiset"
begin

section \<open>Errors raised by the scripts\<close>

text \<open>
  The scripts define no exception of their own. The only exceptions their code can raise
  are the interpreter's: from \<^verbatim>\<open>quantify_seeds\<close>, \<^verbatim>\<open>ZeroDivisionError\<close> (a division
  by zero), \<^verbatim>\<open>OverflowError\<close> (\<^verbatim>\<open>math.floor\<close> of an infinity, \<^verbatim>\<open>float\<close> of an
  integer beyond the floats) and \<^verbatim>\<open>ValueError\<close> (\<^verbatim>\<open>math.floor\<close> of a NaN); from
  \<^verbatim>\<open>generate_plate\<close>, \<^verbatim>\<open>IndexError\<close> (a list subscript out of range) and
  \<^verbatim>\<open>TypeError\<close> (a subscript on a value that is not a list).
\<close>

datatype error = IndexError | ZeroDivisionError | TypeError | OverflowError | ValueError

section \<open>Python floats\<close>

text \<open>
  A Python float is an IEEE 754 binary64 number: a finite value, which is a rational
  number, one of the two infinities, or a NaN. The two zeros are one value here: the
  sign of a zero shows in no result of \<^verbatim>\<open>quantify_seeds\<close>, since a division by either
  zero raises and \<^verbatim>\<open>math.floor\<close> of either zero is the integer 0.
\<close>

datatype fl = Finite rat | PInf | MInf | NaN

text \<open>Rounding of a rational to an integer, a tie to the even neighbour.\<close>

definition rhe :: "rat \<Rightarrow> int" where
  "rhe x = (let f = \<lfloor>x\<rfloor>; d = x - of_int f in
     if d < 1 / 2 then f else if 1 / 2 < d then f + 1 else if even f then f else f + 1)"

text \<open>
  The finite binary64 numbers are the \<open>m * 2 ^ e\<close> with \<open>\<bar>m\<bar> < 2 ^ 53\<close> and
  \<open>- 1074 \<le> e \<le> 971\<close>. A positive \<open>x\<close> is rounded on the grid of step \<open>2 ^ e\<close>
  for the least such \<open>e\<close> with \<open>x < 2 ^ (e + 53)\<close> (the subnormal numbers have
  \<open>e = - 1074\<close>), or \<open>e = 971\<close> if there is none. \<open>expo_from n e t x\<close> searches that
  exponent upwards from \<open>e\<close>, where \<open>t = 2 ^ (e + 53)\<close>, in at most \<open>n\<close> steps.
\<close>

fun expo_from :: "nat \<Rightarrow> int \<Rightarrow> rat \<Rightarrow> rat \<Rightarrow> int" where
  "expo_from 0 e t x = e"
| "expo_from (Suc n) e t x = (if x < t then e else expo_from n (e + 1) (2 * t) x)"

definition expo :: "rat \<Rightarrow> int" where
  "expo x = expo_from 2045 (- 1074) (2 powi (- 1021)) x"

definition round_val :: "rat \<Rightarrow> rat" where
  "round_val x = of_int (rhe (x / 2 powi expo x)) * 2 powi expo x"

text \<open>
  Rounding to nearest, ties to even, of a positive rational: a result of \<open>2 ^ 1024\<close>
  (the rounding of everything from \<open>2 ^ 1024 - 2 ^ 970\<close> on) is the overflow to
  infinity.
\<close>

definition round_pos :: "rat \<Rightarrow> fl" where
  "round_pos x = (let v = round_val x in if 2 ^ 1024 \<le> v then PInf else Finite v)"

fun fl_neg :: "fl \<Rightarrow> fl" where
  "fl_neg (Finite x) = Finite (- x)"
| "fl_neg PInf = MInf"
| "fl_neg MInf = PInf"
| "fl_neg NaN = NaN"

definition round64 :: "rat \<Rightarrow> fl" where
  "round64 x =
     (if x = 0 then Finite 0 else if 0 < x then round_pos x else fl_neg (round_pos (- x)))"

text \<open>The sign of a float that is not a NaN, and the infinity of a sign.\<close>

fun fl_sign :: "fl \<Rightarrow> int" where
  "fl_sign (Finite x) = (if 0 < x then 1 else if x < 0 then - 1 else 0)"
| "fl_sign PInf = 1"
| "fl_sign MInf = - 1"
| "fl_sign NaN = 0"

definition fl_inf :: "int \<Rightarrow> fl" where
  "fl_inf s = (if 0 < s then PInf else if s < 0 then MInf else NaN)"

text \<open>
  The float product \<^verbatim>\<open>a * b\<close>: the exact product rounded; it overflows to an
  infinity without raising; an infinity times zero is a NaN.
\<close>

definition fl_mul :: "fl \<Rightarrow> fl \<Rightarrow> fl" where
  "fl_mul a b =
     (case a of
        Finite x \<Rightarrow>
          (case b of
             Finite y \<Rightarrow> round64 (x * y)
           | NaN \<Rightarrow> NaN
           | _ \<Rightarrow> fl_inf (fl_sign a * fl_sign b))
      | NaN \<Rightarrow> NaN
      | _ \<Rightarrow> (case b of NaN \<Rightarrow> NaN | _ \<Rightarrow> fl_inf (fl_sign a * fl_sign b)))"

text \<open>
  The IEEE quotient of two floats, for a divisor that is not zero: the exact quotient
  rounded; a finite number over an infinity is zero, an infinity over a finite number is
  an infinity, an infinity over an infinity is a NaN.
\<close>

definition fl_quot :: "fl \<Rightarrow> fl \<Rightarrow> fl" where
  "fl_quot a b =
     (case a of
        Finite x \<Rightarrow>
          (case b of Finite y \<Rightarrow> round64 (x / y) | NaN \<Rightarrow> NaN | _ \<Rightarrow> Finite 0)
      | NaN \<Rightarrow> NaN
      | _ \<Rightarrow> (case b of Finite y \<Rightarrow> fl_inf (fl_sign a * fl_sign b) | _ \<Rightarrow> NaN))"

text \<open>
  The float quotient \<^verbatim>\<open>a / b\<close>. The interpreter tests the divisor first and raises
  \<^verbatim>\<open>ZeroDivisionError\<close> when it is zero, whatever the dividend; otherwise the result
  is the IEEE quotient, which raises nothing.
\<close>

definition fl_div :: "fl \<Rightarrow> fl \<Rightarrow> error + fl" where
  "fl_div a b = (if b = Finite 0 then Inl ZeroDivisionError else Inr (fl_quot a b))"

text \<open>
  \<^verbatim>\<open>math.floor(x)\<close> of a float: the integer floor, \<^verbatim>\<open>OverflowError\<close> for an
  infinity, \<^verbatim>\<open>ValueError\<close> for a NaN.
\<close>

fun py_floor :: "fl \<Rightarrow> error + int" where
  "py_floor (Finite x) = Inr \<lfloor>x\<rfloor>"
| "py_floor NaN = Inl ValueError"
| "py_floor a = Inl OverflowError"

text \<open>
  A number of the table: a Python int or a float. \<^verbatim>\<open>float(x)\<close> returns a float
  as it is, and the nearest float of an int, or raises \<^verbatim>\<open>OverflowError\<close> when the
  int is too large for a float.
\<close>

datatype num = PyInt int | PyFloat fl

fun py_float :: "num \<Rightarrow> error + fl" where
  "py_float (PyFloat a) = Inr a"
| "py_float (PyInt i) =
     (case round64 (of_int i) of Finite v \<Rightarrow> Inr (Finite v) | _ \<Rightarrow> Inl OverflowError)"

text \<open>
  The true division \<^verbatim>\<open>a / b\<close> of two Python ints: the exact quotient rounded to the
  nearest float, \<^verbatim>\<open>ZeroDivisionError\<close> for a zero divisor, \<^verbatim>\<open>OverflowError\<close> when
  the quotient is too large for a float.
\<close>

definition int_truediv :: "int \<Rightarrow> int \<Rightarrow> error + fl" where
  "int_truediv a b =
     (if b = 0 then Inl ZeroDivisionError
      else case round64 (of_int a / of_int b) of
             Finite v \<Rightarrow> Inr (Finite v)
           | _ \<Rightarrow> Inl OverflowError)"

text \<open>The comparisons \<^verbatim>\<open>0 < a\<close> and \<^verbatim>\<open>a <= b\<close> of floats; a NaN compares false.\<close>

fun fl_pos :: "fl \<Rightarrow> bool" where
  "fl_pos (Finite x) = (0 < x)"
| "fl_pos PInf = True"
| "fl_pos a = False"

definition fl_le :: "fl \<Rightarrow> fl \<Rightarrow> bool" where
  "fl_le a b =
     (case a of
        Finite x \<Rightarrow> (case b of Finite y \<Rightarrow> x \<le> y | PInf \<Rightarrow> True | _ \<Rightarrow> False)
      | PInf \<Rightarrow> b = PInf
      | MInf \<Rightarrow> b \<noteq> NaN
      | NaN \<Rightarrow> False)"

section \<open>quantify\_seeds.py\<close>

text \<open>
  An element of \<^verbatim>\<open>tree_dict\<close> is a list \<^verbatim>\<open>[name, min TKG, max TKG, available weight]\<close>;
  the three numbers are Python ints or floats (the script's own table holds ints and
  one float, 3.5). An element is modelled by the four values the function reads from
  it; an element with fewer than four entries, or an entry that is neither an int nor
  a float (a string, \<^verbatim>\<open>None\<close>), is outside the type.
\<close>

type_synonym item = "string \<times> num \<times> num \<times> num"

text \<open>
  One call of \<^verbatim>\<open>print\<close> is recorded by the four values interpolated into its
  f-string; the fixed text around them is not modelled.
\<close>

record report =
  tree_name :: string
  min_seed_count :: int
  max_seed_count :: int
  mean_seed_count :: int

text \<open>
  \<^verbatim>\<open>
  def quantify_seeds(tree_dict):
      for item in tree_dict:
          tree_name = item[0]
          min_weight = float(item[1])
          max_weight = float(item[2])
          available_weight = float(item[3])
          max_seed_count = math.floor((available_weight * 1000) / min_weight)
          min_seed_count = math.floor((available_weight * 1000) / max_weight)
          mean_seed_count = math.floor((min_seed_count + max_seed_count) / 2)
          print(...)
  \<close>
  The function returns nothing; what it does is print. The model threads the lines
  printed so far through the loop and returns them together with the exception that
  ended the loop, if any. Every operation of the body is a step of the model, in the
  order of evaluation: the three conversions, the product and the quotient in binary64,
  \<^verbatim>\<open>math.floor\<close>, the sum of two ints (exact), the true division of that int by 2.
  The integer 1000 enters the product as the float 1000.0. What was printed for earlier
  records stays printed.
\<close>

fun quantify_seeds_loop :: "item list \<Rightarrow> report list \<Rightarrow> report list \<times> error option" where
  "quantify_seeds_loop [] out = (out, None)"
| "quantify_seeds_loop ((name, x1, x2, x3) # rest) out =
     (case py_float x1 of Inl e \<Rightarrow> (out, Some e) | Inr min_weight \<Rightarrow>
     (case py_float x2 of Inl e \<Rightarrow> (out, Some e) | Inr max_weight \<Rightarrow>
     (case py_float x3 of Inl e \<Rightarrow> (out, Some e) | Inr available_weight \<Rightarrow>
     (case fl_div (fl_mul available_weight (Finite 1000)) min_weight of
        Inl e \<Rightarrow> (out, Some e) | Inr q1 \<Rightarrow>
     (case py_floor q1 of Inl e \<Rightarrow> (out, Some e) | Inr max_count \<Rightarrow>
     (case fl_div (fl_mul available_weight (Finite 1000)) max_weight of
        Inl e \<Rightarrow> (out, Some e) | Inr q2 \<Rightarrow>
     (case py_floor q2 of Inl e \<Rightarrow> (out, Some e) | Inr min_count \<Rightarrow>
     (case int_truediv (min_count + max_count) 2 of
        Inl e \<Rightarrow> (out, Some e) | Inr q3 \<Rightarrow>
     (case py_floor q3 of Inl e \<Rightarrow> (out, Some e) | Inr mean_count \<Rightarrow>
        quantify_seeds_loop rest
          (out @ [\<lparr>tree_name = name, min_seed_count = min_count,
                    max_seed_count = max_count, mean_seed_count = mean_count\<rparr>]))))))))))"

definition quantify_seeds :: "item list \<Rightarrow> report list \<times> error option" where
  "quantify_seeds tree_dict = quantify_seeds_loop tree_dict []"

text \<open>
  \<^verbatim>\<open>
  tree_dictionary = [
      ["Picea abies", 4, 8, 100],
      ["Pinus cembra", 150, 300, 2000],
      ["Acer pseudoplatanus", 100, 250, 3000],
      ["Sorbus aucuparia", 3.5, 5, 200]
  ]
  \<close>
\<close>

definition tree_dictionary :: "item list" where
  "tree_dictionary =
     [(''Picea abies'', PyInt 4, PyInt 8, PyInt 100),
      (''Pinus cembra'', PyInt 150, PyInt 300, PyInt 2000),
      (''Acer pseudoplatanus'', PyInt 100, PyInt 250, PyInt 3000),
      (''Sorbus aucuparia'', PyFloat (Finite (7 / 2)), PyInt 5, PyInt 200)]"

text \<open>
  The estimate of section 4.1 of the specification, written from its words, to compare
  the function with: a count is floor(availableWeight * 1000 / weight), the mean count is
  floor((minCount + maxCount) / 2), in the arithmetic of the language (floats for the
  weights, integers for the counts).
\<close>

definition spec_count :: "fl \<Rightarrow> fl \<Rightarrow> error + int" where
  "spec_count availableWeight weight =
     (case fl_div (fl_mul availableWeight (Finite 1000)) weight of
        Inl e \<Rightarrow> Inl e
      | Inr q \<Rightarrow> py_floor q)"

definition spec_mean :: "int \<Rightarrow> int \<Rightarrow> error + int" where
  "spec_mean minCount maxCount =
     (case int_truediv (minCount + maxCount) 2 of
        Inl e \<Rightarrow> Inl e
      | Inr q \<Rightarrow> py_floor q)"

text \<open>
  The estimate of one record: maxCount from minWeight, minCount from maxWeight, then
  the mean; the first operation that fails gives the error of the record.
\<close>

definition spec_estimate :: "item \<Rightarrow> error + report" where
  "spec_estimate rec =
     (case rec of (name, x1, x2, x3) \<Rightarrow>
     (case py_float x1 of Inl e \<Rightarrow> Inl e | Inr minWeight \<Rightarrow>
     (case py_float x2 of Inl e \<Rightarrow> Inl e | Inr maxWeight \<Rightarrow>
     (case py_float x3 of Inl e \<Rightarrow> Inl e | Inr availableWeight \<Rightarrow>
     (case spec_count availableWeight minWeight of Inl e \<Rightarrow> Inl e | Inr maxCount \<Rightarrow>
     (case spec_count availableWeight maxWeight of Inl e \<Rightarrow> Inl e | Inr minCount \<Rightarrow>
     (case spec_mean minCount maxCount of Inl e \<Rightarrow> Inl e | Inr meanCount \<Rightarrow>
        Inr \<lparr>tree_name = name, min_seed_count = minCount,
             max_seed_count = maxCount, mean_seed_count = meanCount\<rparr>)))))))"

text \<open>
  The estimates of a sequence of records: one per record, in the order of the records,
  up to the first record whose estimate fails.
\<close>

fun spec_estimates :: "item list \<Rightarrow> report list \<times> error option" where
  "spec_estimates [] = ([], None)"
| "spec_estimates (rec # rest) =
     (case spec_estimate rec of
        Inl e \<Rightarrow> ([], Some e)
      | Inr r \<Rightarrow> (case spec_estimates rest of (rs, err) \<Rightarrow> (r # rs, err)))"

text \<open>
  The weights of a record as the function reads them: the float of each number. A
  number whose conversion raises has no float and satisfies none of the predicates
  below.
\<close>

definition float_pos :: "num \<Rightarrow> bool" where
  "float_pos x = (case py_float x of Inl e \<Rightarrow> False | Inr a \<Rightarrow> fl_pos a)"

definition float_le :: "num \<Rightarrow> num \<Rightarrow> bool" where
  "float_le x y =
     (case py_float x of
        Inl e \<Rightarrow> False
      | Inr a \<Rightarrow> (case py_float y of Inl e \<Rightarrow> False | Inr b \<Rightarrow> fl_le a b))"

definition float_zero :: "num \<Rightarrow> bool" where
  "float_zero x = (py_float x = Inr (Finite 0))"

text \<open>The input invariant of the specification's SpeciesSeedRecord.\<close>

definition valid_record :: "item \<Rightarrow> bool" where
  "valid_record rec = (case rec of (name, minWeight, maxWeight, availableWeight) \<Rightarrow>
     float_pos minWeight \<and> float_pos maxWeight \<and> float_pos availableWeight \<and>
     float_le minWeight maxWeight)"

definition positive_weights :: "item \<Rightarrow> bool" where
  "positive_weights rec = (case rec of (name, minWeight, maxWeight, availableWeight) \<Rightarrow>
     float_pos minWeight \<and> float_pos maxWeight \<and> float_pos availableWeight)"

definition positive_divisors :: "item \<Rightarrow> bool" where
  "positive_divisors rec = (case rec of (name, minWeight, maxWeight, availableWeight) \<Rightarrow>
     float_pos minWeight \<and> float_pos maxWeight)"

text \<open>A record one of whose two divisors is zero.\<close>

definition zero_divisor :: "item \<Rightarrow> bool" where
  "zero_divisor rec = (case rec of (name, minWeight, maxWeight, availableWeight) \<Rightarrow>
     float_zero minWeight \<or> float_zero maxWeight)"

text \<open>
  A record whose larger quotient, the float \<^verbatim>\<open>(available_weight * 1000) / min_weight\<close>,
  is a finite float.
\<close>

definition finite_quotient :: "item \<Rightarrow> bool" where
  "finite_quotient rec = (case rec of (name, minWeight, maxWeight, availableWeight) \<Rightarrow>
     (case py_float minWeight of
        Inl e \<Rightarrow> False
      | Inr w \<Rightarrow>
          (case py_float availableWeight of
             Inl e \<Rightarrow> False
           | Inr a \<Rightarrow>
               (case fl_div (fl_mul a (Finite 1000)) w of
                  Inr (Finite q) \<Rightarrow> True
                | _ \<Rightarrow> False))))"

definition counts_ordered :: "report \<Rightarrow> bool" where
  "counts_ordered r \<longleftrightarrow>
     0 \<le> min_seed_count r \<and> min_seed_count r \<le> mean_seed_count r \<and>
     mean_seed_count r \<le> max_seed_count r \<and> 0 \<le> mean_seed_count r \<and> 0 \<le> max_seed_count r"

text \<open>
  Three floats used in the examples: the float nearest to 1.1, which is
  \<open>2476979795053773 / 2 ^ 51\<close>, the float \<^verbatim>\<open>1e306\<close>, which is
  \<open>6413338752028713 * 2 ^ 964\<close>, and the subnormal float \<^verbatim>\<open>1e-320\<close>, which is
  \<open>2024 / 2 ^ 1074\<close>.
\<close>

definition f_1_1 :: fl where
  "f_1_1 = Finite (2476979795053773 / 2251799813685248)"

definition f_1e306 :: fl where
  "f_1e306 = Finite (6413338752028713 * 2 ^ 964)"

definition f_1em320 :: fl where
  "f_1em320 = Finite (2024 / 2 ^ 1074)"

section \<open>random\_tray\_configs.py and random-tray-configs.py\<close>

text \<open>
  A plate is a list of rows, each a list of labels. The two scripts hold the same
  function \<^verbatim>\<open>generate_plate\<close>, character for character; they differ in the module
  globals the function reads (the label of the empty pots in \<^verbatim>\<open>objects\<close>) and in
  the display code, which is not modelled.
\<close>

type_synonym plate = "string list list"

text \<open>
  The random source. \<^verbatim>\<open>random.shuffle\<close> draws from the module's generator through
  \<^verbatim>\<open>randbelow(n)\<close>, which returns an integer in \<^verbatim>\<open>range(n)\<close> and advances the
  generator. The generator is the interpreter's, not the repository's: it is a
  parameter of the model, a function from a generator state and \<open>n\<close> to the draw and the
  next state, and \<open>randbelow_ok\<close> is its contract.
\<close>

type_synonym 'g randbelow = "'g \<Rightarrow> nat \<Rightarrow> nat \<times> 'g"

definition randbelow_ok :: "'g randbelow \<Rightarrow> bool" where
  "randbelow_ok rb \<longleftrightarrow> (\<forall>g n. 0 < n \<longrightarrow> fst (rb g n) < n)"

text \<open>
  The standard library's shuffle:
  \<^verbatim>\<open>
  def shuffle(self, x):
      randbelow = self._randbelow
      for i in reversed(range(1, len(x))):
          j = randbelow(i + 1)
          x[i], x[j] = x[j], x[i]
  \<close>
  \<open>shuffle_from rb i xs g\<close> runs the loop from index \<open>i\<close> down to 1. A subscript out
  of range raises \<^verbatim>\<open>IndexError\<close>; it cannot happen with a generator that keeps its
  contract. The index \<open>i\<close> is in range by the bounds of the loop; the model checks it all
  the same, as the interpreter does.
\<close>

fun shuffle_from :: "'g randbelow \<Rightarrow> nat \<Rightarrow> 'a list \<Rightarrow> 'g \<Rightarrow> error + ('a list \<times> 'g)" where
  "shuffle_from rb 0 xs g = Inr (xs, g)"
| "shuffle_from rb (Suc k) xs g =
     (case rb g (Suc k + 1) of (j, g') \<Rightarrow>
        if j < length xs \<and> Suc k < length xs
        then shuffle_from rb k (xs[Suc k := xs ! j, j := xs ! Suc k]) g'
        else Inl IndexError)"

definition shuffle :: "'g randbelow \<Rightarrow> 'a list \<Rightarrow> 'g \<Rightarrow> error + ('a list \<times> 'g)" where
  "shuffle rb xs g = shuffle_from rb (length xs - 1) xs g"

text \<open>
  A list subscript with a Python integer: a negative index counts from the end, an
  index out of range raises \<^verbatim>\<open>IndexError\<close>.
\<close>

definition py_index :: "nat \<Rightarrow> int \<Rightarrow> error + nat" where
  "py_index n i =
     (let j = (if i < 0 then int n + i else i)
      in if 0 \<le> j \<and> j < int n then Inr (nat j) else Inl IndexError)"

text \<open>The assignment \<^verbatim>\<open>plate[r][c] = v\<close>.\<close>

definition setitem2 :: "plate \<Rightarrow> int \<times> int \<Rightarrow> string \<Rightarrow> error + plate" where
  "setitem2 plate pos v =
     (case py_index (length plate) (fst pos) of
        Inl e \<Rightarrow> Inl e
      | Inr r \<Rightarrow>
          (case py_index (length (plate ! r)) (snd pos) of
             Inl e \<Rightarrow> Inl e
           | Inr c \<Rightarrow> Inr (plate[r := (plate ! r)[c := v]])))"

text \<open>
  \<^verbatim>\<open>plate = [['' for _ in range(plate_size[1])] for _ in range(plate_size[0])]\<close>
\<close>

definition empty_plate :: "nat \<times> nat \<Rightarrow> plate" where
  "empty_plate plate_size =
     map (\<lambda>_. map (\<lambda>_. []) [0..<snd plate_size]) [0..<fst plate_size]"

text \<open>
  \<^verbatim>\<open>[(r, c) for r in range(plate_size[0]) for c in range(plate_size[1])
      if (r, c) != position_L]\<close>
\<close>

definition available :: "nat \<times> nat \<Rightarrow> int \<times> int \<Rightarrow> (nat \<times> nat) list" where
  "available plate_size position_L =
     concat (map (\<lambda>r. concat (map (\<lambda>c. if (int r, int c) \<noteq> position_L then [(r, c)] else [])
                                   [0..<snd plate_size]))
                 [0..<fst plate_size])"

text \<open>
  \<^verbatim>\<open>
  for obj, (r, c) in zip(objects, available_positions):
      plate[r][c] = obj
  \<close>
  \<open>zip\<close> stops at the end of the shorter list, in Python as in HOL.
\<close>

fun assign :: "(string \<times> nat \<times> nat) list \<Rightarrow> plate \<Rightarrow> error + plate" where
  "assign [] plate = Inr plate"
| "assign ((obj, (r, c)) # rest) plate =
     (case setitem2 plate (int r, int c) obj of
        Inl e \<Rightarrow> Inl e
      | Inr plate' \<Rightarrow> assign rest plate')"

text \<open>
  \<^verbatim>\<open>
  def generate_plate():
      plate = [['' for _ in range(plate_size[1])] for _ in range(plate_size[0])]
      plate[position_L[0]][position_L[1]] = 'L'
      available_positions = [(r, c) for r in range(plate_size[0])
                             for c in range(plate_size[1]) if (r, c) != position_L]
      random.shuffle(available_positions)
      for obj, (r, c) in zip(objects, available_positions):
          plate[r][c] = obj
      return plate
  \<close>
  The function takes no argument: it reads the module globals \<^verbatim>\<open>objects\<close>,
  \<^verbatim>\<open>plate_size\<close> and \<^verbatim>\<open>position_L\<close> and the state of the generator, which are
  the arguments of the model. It returns the plate; the model returns the state of the
  generator after the call with it. The empty string of the empty plate is the empty
  list of characters.
\<close>

definition generate_plate ::
  "'g randbelow \<Rightarrow> string list \<Rightarrow> nat \<times> nat \<Rightarrow> int \<times> int \<Rightarrow> 'g \<Rightarrow> error + (plate \<times> 'g)" where
  "generate_plate rb objects plate_size position_L g =
     (case setitem2 (empty_plate plate_size) position_L ''L'' of
        Inl e \<Rightarrow> Inl e
      | Inr plate \<Rightarrow>
          (case shuffle rb (available plate_size position_L) g of
             Inl e \<Rightarrow> Inl e
           | Inr (available_positions, g') \<Rightarrow>
               (case assign (zip objects available_positions) plate of
                  Inl e \<Rightarrow> Inl e
                | Inr plate' \<Rightarrow> Inr (plate', g'))))"

text \<open>
  \<^verbatim>\<open>plates = [generate_plate() for _ in range(num_plates)]\<close>: each call starts from
  the generator state the call before it left.
\<close>

fun generate_plates ::
  "'g randbelow \<Rightarrow> string list \<Rightarrow> nat \<times> nat \<Rightarrow> int \<times> int \<Rightarrow> nat \<Rightarrow> 'g \<Rightarrow> error + (plate list \<times> 'g)" where
  "generate_plates rb objects plate_size position_L 0 g = Inr ([], g)"
| "generate_plates rb objects plate_size position_L (Suc n) g =
     (case generate_plate rb objects plate_size position_L g of
        Inl e \<Rightarrow> Inl e
      | Inr (plate, g') \<Rightarrow>
          (case generate_plates rb objects plate_size position_L n g' of
             Inl e \<Rightarrow> Inl e
           | Inr (plates, g'') \<Rightarrow> Inr (plate # plates, g'')))"

text \<open>The label at a position of a plate.\<close>

definition cell :: "plate \<Rightarrow> nat \<times> nat \<Rightarrow> string" where
  "cell plate p = plate ! fst p ! snd p"

text \<open>A plate of the given size: so many rows, each of so many columns.\<close>

definition plate_shape :: "nat \<times> nat \<Rightarrow> plate \<Rightarrow> bool" where
  "plate_shape plate_size plate \<longleftrightarrow>
     length plate = fst plate_size \<and> list_all (\<lambda>row. length row = snd plate_size) plate"

text \<open>
  The labels of a plate in the cells other than the pinned one, row by row: what is
  left of the flattened plate when the pinned cell is taken out.
\<close>

definition other_cells :: "plate \<Rightarrow> int \<times> int \<Rightarrow> string list" where
  "other_cells plate position_L =
     concat (map (\<lambda>r. concat (map (\<lambda>c. if (int r, int c) \<noteq> position_L then [plate ! r ! c] else [])
                                   [0..<length (plate ! r)]))
                 [0..<length plate])"

text \<open>
  The invariant of the specification's TrayLayoutSpec: the pinned position lies within
  the grid (so the grid has at least one row and one column), and there is one fill
  label for every other cell.
\<close>

definition pinned_in_bounds :: "nat \<times> nat \<Rightarrow> int \<times> int \<Rightarrow> bool" where
  "pinned_in_bounds plate_size position_L \<longleftrightarrow>
     0 \<le> fst position_L \<and> fst position_L < int (fst plate_size) \<and>
     0 \<le> snd position_L \<and> snd position_L < int (snd plate_size)"

definition valid_layout :: "nat \<times> nat \<Rightarrow> int \<times> int \<Rightarrow> string list \<Rightarrow> bool" where
  "valid_layout plate_size position_L objects \<longleftrightarrow>
     pinned_in_bounds plate_size position_L \<and>
     length objects = fst plate_size * snd plate_size - 1"

text \<open>The renaming between the labels of the two scripts: E becomes C.\<close>

definition rename_E_C :: "string \<Rightarrow> string" where
  "rename_E_C label = (if label = ''E'' then ''C'' else label)"

section \<open>generate\_plate with its lists on a heap\<close>

text \<open>
  Python lists are objects that several names may share and that an assignment to a
  subscript changes in place. To see what a call of \<^verbatim>\<open>generate_plate\<close> changes, the
  lists are put on a heap: a heap is the list of the list objects allocated so far, and
  the address of an object is its index. A new object is added at the end. An element of
  a list is a string, a pair of indices (the tuples \<^verbatim>\<open>(r, c)\<close>) or the address of a
  list. Strings and tuples are immutable and are values.
\<close>

datatype val = Str string | Pos nat nat | Ref nat

type_synonym heap = "val list list"

definition alloc :: "heap \<Rightarrow> val list \<Rightarrow> nat \<times> heap" where
  "alloc h xs = (length h, h @ [xs])"

text \<open>
  The rows of \<^verbatim>\<open>[['' for _ in range(cols)] for _ in range(rows)]\<close>: the inner
  comprehension is evaluated once for every row, so every row is a list object of its
  own.
\<close>

fun new_rows :: "nat \<Rightarrow> nat \<Rightarrow> heap \<Rightarrow> nat list \<times> heap" where
  "new_rows 0 cols h = ([], h)"
| "new_rows (Suc n) cols h =
     (case alloc h (map (\<lambda>_. Str []) [0..<cols]) of
        (a, h1) \<Rightarrow> (case new_rows n cols h1 of (rest, h2) \<Rightarrow> (a # rest, h2)))"

text \<open>
  \<^verbatim>\<open>plate[r][c] = v\<close> for the list at address \<open>plate\<close>: the row is looked up in the
  list of rows, and the row object is changed in place. A subscript on a value that is
  not a list raises \<^verbatim>\<open>TypeError\<close>.
\<close>

definition heap_setitem2 :: "heap \<Rightarrow> nat \<Rightarrow> int \<times> int \<Rightarrow> val \<Rightarrow> error + heap" where
  "heap_setitem2 h plate pos v =
     (case py_index (length (h ! plate)) (fst pos) of
        Inl e \<Rightarrow> Inl e
      | Inr r \<Rightarrow>
          (case h ! plate ! r of
             Ref row \<Rightarrow>
               (case py_index (length (h ! row)) (snd pos) of
                  Inl e \<Rightarrow> Inl e
                | Inr c \<Rightarrow> Inr (h[row := (h ! row)[c := v]]))
           | _ \<Rightarrow> Inl TypeError))"

text \<open>
  The loop \<^verbatim>\<open>for obj, (r, c) in zip(objects, available_positions): plate[r][c] = obj\<close>.
  \<open>assign_heap k i\<close> runs the \<open>k\<close> iterations from index \<open>i\<close> on. Each iteration reads
  element \<open>i\<close> of the two lists from the heap as it is then, so a write of an earlier
  iteration into one of them would be seen. No operation of the function changes the
  length of a list, so the number of iterations is known when the loop starts. The
  result is the heap when the loop ends and the exception that ended it, if any.
\<close>

fun assign_heap :: "nat \<Rightarrow> nat \<Rightarrow> nat \<Rightarrow> nat \<Rightarrow> nat \<Rightarrow> heap \<Rightarrow> heap \<times> error option" where
  "assign_heap 0 i objects_ref positions plate h = (h, None)"
| "assign_heap (Suc k) i objects_ref positions plate h =
     (case h ! positions ! i of
        Pos r c \<Rightarrow>
          (case heap_setitem2 h plate (int r, int c) (h ! objects_ref ! i) of
             Inl e \<Rightarrow> (h, Some e)
           | Inr h' \<Rightarrow> assign_heap k (Suc i) objects_ref positions plate h')
      | _ \<Rightarrow> (h, Some TypeError))"

text \<open>
  \<^verbatim>\<open>generate_plate\<close> on the heap. \<open>objects_ref\<close> is the address of the list that the
  global \<^verbatim>\<open>objects\<close> names; \<^verbatim>\<open>plate_size\<close> and \<^verbatim>\<open>position_L\<close> are tuples, and the
  function has no \<^verbatim>\<open>global\<close> statement, so it cannot bind any of the three names
  anew. \<^verbatim>\<open>random.shuffle\<close> replaces the content of the list it is given by the
  shuffled content. The result is the heap after the call, and the exception raised or
  the address of the plate returned with the state of the generator.
\<close>

definition generate_plate_heap ::
  "'g randbelow \<Rightarrow> nat \<Rightarrow> nat \<times> nat \<Rightarrow> int \<times> int \<Rightarrow> heap \<Rightarrow> 'g \<Rightarrow> heap \<times> (error + nat \<times> 'g)" where
  "generate_plate_heap rb objects_ref plate_size position_L h g =
     (case new_rows (fst plate_size) (snd plate_size) h of
        (rows, h1) \<Rightarrow>
          (case alloc h1 (map Ref rows) of
             (plate, h2) \<Rightarrow>
               (case heap_setitem2 h2 plate position_L (Str ''L'') of
                  Inl e \<Rightarrow> (h2, Inl e)
                | Inr h3 \<Rightarrow>
                    (case alloc h3 (map (\<lambda>(r, c). Pos r c) (available plate_size position_L)) of
                       (available_positions, h4) \<Rightarrow>
                         (case shuffle rb (h4 ! available_positions) g of
                            Inl e \<Rightarrow> (h4, Inl e)
                          | Inr (shuffled, g') \<Rightarrow>
                              (let h5 = h4[available_positions := shuffled];
                                   n = min (length (h5 ! objects_ref))
                                           (length (h5 ! available_positions))
                               in case assign_heap n 0 objects_ref available_positions plate h5 of
                                    (h6, Some e) \<Rightarrow> (h6, Inl e)
                                  | (h6, None) \<Rightarrow> (h6, Inr (plate, g'))))))))"

text \<open>The rows of the plate at an address, read from the heap.\<close>

definition heap_rows :: "heap \<Rightarrow> nat \<Rightarrow> val list list" where
  "heap_rows h plate = map (\<lambda>v. case v of Ref row \<Rightarrow> h ! row | _ \<Rightarrow> []) (h ! plate)"

text \<open>
  The heap during a call: the objects that were there before it, unchanged, then the
  rows of the plate, then the plate, then what was allocated after it.
\<close>

definition plate_heap :: "heap \<Rightarrow> plate \<Rightarrow> heap \<Rightarrow> heap" where
  "plate_heap before plate rest =
     before @ map (map Str) plate
       @ [map Ref [length before..<length before + length plate]] @ rest"

text \<open>The module globals of random\_tray\_configs.py.\<close>

definition objects :: "string list" where
  "objects = replicate 3 ''C'' @ replicate 5 ''P. abies'' @ replicate 5 ''P. cembra''
     @ replicate 5 ''A. pseudoplatanus'' @ replicate 5 ''S. aucuparia''"

definition num_plates :: nat where
  "num_plates = 72"

definition plate_size :: "nat \<times> nat" where
  "plate_size = (4, 6)"

definition position_L :: "int \<times> int" where
  "position_L = (2, 2)"

text \<open>
  The module globals of random-tray-configs.py: the empty pots are labelled E; the
  other globals are those above.
\<close>

definition objects_E :: "string list" where
  "objects_E = replicate 3 ''E'' @ replicate 5 ''P. abies'' @ replicate 5 ''P. cembra''
     @ replicate 5 ''A. pseudoplatanus'' @ replicate 5 ''S. aucuparia''"

text \<open>
  A generator to run the model on: a linear congruential generator, reduced modulo
  \<open>n\<close>. It stands for nothing in the scripts; it keeps the contract of \<open>randbelow\<close>.
\<close>

definition lcg :: "int randbelow" where
  "lcg g n = (let g' = (1103515245 * g + 12345) mod 2147483648 in (nat (g' mod int n), g'))"

section \<open>Binary64 rounding\<close>

text \<open>
  Facts about rounding to nearest: it is monotone, it leaves a binary64 number as it is,
  the floor of a non-negative binary64 number is a binary64 number, and the rounding of
  a given rational is found from its exponent and its rounded significand
  (\<open>round64_at\<close>), without running the search of the exponent.
\<close>

lemma rhe_of_int: "rhe (of_int k) = k"
  by (simp add: rhe_def)

lemma rhe_floor_le: "\<lfloor>x\<rfloor> \<le> rhe x"
  by (simp add: rhe_def Let_def)

lemma rhe_le_floor_Suc: "rhe x \<le> \<lfloor>x\<rfloor> + 1"
  by (simp add: rhe_def Let_def)

lemma rhe_ge:
  assumes "of_int k \<le> x"
  shows "k \<le> rhe x"
proof -
  from assms have "k \<le> \<lfloor>x\<rfloor>"
    by (simp add: le_floor_iff)
  with rhe_floor_le [of x] show ?thesis
    by linarith
qed

lemma rhe_le:
  assumes "x \<le> of_int k"
  shows "rhe x \<le> k"
proof (cases "x = of_int k")
  case True
  then show ?thesis by (simp add: rhe_of_int)
next
  case False
  with assms have "x < of_int k" by simp
  then have "\<lfloor>x\<rfloor> < k" by (simp add: floor_less_iff)
  with rhe_le_floor_Suc [of x] show ?thesis by linarith
qed

lemma rhe_mono:
  assumes "x \<le> y"
  shows "rhe x \<le> rhe y"
proof (cases "\<lfloor>x\<rfloor> = \<lfloor>y\<rfloor>")
  case True
  with assms have "x - of_int \<lfloor>x\<rfloor> \<le> y - of_int \<lfloor>y\<rfloor>"
    by simp
  with True show ?thesis
    by (auto simp: rhe_def Let_def)
next
  case False
  with assms have "\<lfloor>x\<rfloor> < \<lfloor>y\<rfloor>"
    using floor_mono [OF assms] by linarith
  with rhe_le_floor_Suc [of x] rhe_floor_le [of y] show ?thesis
    by linarith
qed

lemma expo_from_range: "e \<le> expo_from n e t x \<and> expo_from n e t x \<le> e + int n"
proof (induction n arbitrary: e t)
  case 0
  show ?case by simp
next
  case (Suc n)
  from Suc [of "e + 1" "2 * t"] show ?case
    by auto
qed

lemma two_powi_Suc: "2 * (2::rat) powi k = 2 powi (k + 1)"
  by (simp add: power_int_add)

lemma expo_from_upper:
  assumes "t = 2 powi (e + 53)" and "expo_from n e t x < e + int n"
  shows "x < 2 powi (expo_from n e t x + 53)"
  using assms
proof (induction n arbitrary: e t)
  case 0
  then show ?case by simp
next
  case (Suc n)
  show ?case
  proof (cases "x < t")
    case True
    with Suc.prems show ?thesis by simp
  next
    case False
    have t2: "2 * t = 2 powi (e + 1 + 53)"
      using Suc.prems(1) by (simp add: power_int_add)
    from False Suc.prems(2) have "expo_from n (e + 1) (2 * t) x < e + 1 + int n"
      by simp
    from Suc.IH [OF t2 this] False show ?thesis
      by simp
  qed
qed

lemma expo_from_lower:
  assumes "t = 2 powi (e + 53)" and "e < expo_from n e t x"
  shows "2 powi (expo_from n e t x + 52) \<le> x"
  using assms
proof (induction n arbitrary: e t)
  case 0
  then show ?case by simp
next
  case (Suc n)
  from Suc.prems(2) have nlt: "\<not> x < t"
    by (auto split: if_splits)
  have t2: "2 * t = 2 powi (e + 1 + 53)"
    using Suc.prems(1) by (simp add: power_int_add)
  show ?case
  proof (cases "e + 1 < expo_from n (e + 1) (2 * t) x")
    case True
    from Suc.IH [OF t2 True] nlt show ?thesis
      by simp
  next
    case False
    with expo_from_range [of "e + 1" n "2 * t" x]
    have eq: "expo_from n (e + 1) (2 * t) x = e + 1"
      by simp
    from nlt eq have r: "expo_from (Suc n) e t x = e + 1"
      by simp
    have "e + 1 + 52 = e + 53" by simp
    then have h: "(2::rat) powi (e + 1 + 52) = 2 powi (e + 53)"
      by (rule arg_cong)
    from nlt Suc.prems(1) have "2 powi (e + 53) \<le> x"
      by simp
    then show ?thesis
      by (simp only: r h)
  qed
qed

lemma expo_from_mono:
  assumes "x \<le> y"
  shows "expo_from n e t x \<le> expo_from n e t y"
proof (induction n arbitrary: e t)
  case 0
  show ?case by simp
next
  case (Suc n)
  show ?case
  proof (cases "y < t")
    case True
    with assms show ?thesis by simp
  next
    case False
    with Suc [of "e + 1" "2 * t"] expo_from_range [of "e + 1" n "2 * t" y] show ?thesis
      by auto
  qed
qed

lemma expo_range: "- 1074 \<le> expo x \<and> expo x \<le> 971"
  using expo_from_range [of "- 1074" 2045 "2 powi (- 1021)" x] by (simp add: expo_def)

lemma expo_upper: "expo x < 971 \<Longrightarrow> x < 2 powi (expo x + 53)"
  using expo_from_upper [of "2 powi (- 1021)" "- 1074" 2045 x] by (simp add: expo_def)

lemma expo_lower: "- 1074 < expo x \<Longrightarrow> 2 powi (expo x + 52) \<le> x"
  using expo_from_lower [of "2 powi (- 1021)" "- 1074" 2045 x] by (simp add: expo_def)

lemma expo_mono: "x \<le> y \<Longrightarrow> expo x \<le> expo y"
  unfolding expo_def by (rule expo_from_mono)


lemma expo_eq:
  assumes "- 1074 \<le> e" and "e \<le> 971"
    and "e = 971 \<or> x < 2 powi (e + 53)"
    and "e = - 1074 \<or> 2 powi (e + 52) \<le> x"
  shows "expo x = e"
proof (rule ccontr)
  assume ne: "expo x \<noteq> e"
  show False
  proof (cases "expo x < e")
    case True
    with assms(2) have "expo x < 971" by simp
    then have up: "x < 2 powi (expo x + 53)"
      by (rule expo_upper)
    from True expo_range [of x] have "e \<noteq> - 1074" by simp
    with assms(4) have lo: "2 powi (e + 52) \<le> x" by simp
    from True have "expo x + 53 \<le> e + 52" by simp
    then have "(2::rat) powi (expo x + 53) \<le> 2 powi (e + 52)"
      by (intro power_int_increasing) simp_all
    with up lo show False by simp
  next
    case False
    with ne have gt: "e < expo x" by simp
    with expo_range [of x] have "e \<noteq> 971" by simp
    with assms(3) have up: "x < 2 powi (e + 53)" by simp
    from gt assms(1) have "- 1074 < expo x" by simp
    then have lo: "2 powi (expo x + 52) \<le> x"
      by (rule expo_lower)
    from gt have "e + 53 \<le> expo x + 52" by simp
    then have "(2::rat) powi (e + 53) \<le> 2 powi (expo x + 52)"
      by (intro power_int_increasing) simp_all
    with up lo show False by simp
  qed
qed

lemma round_val_mono:
  assumes "0 < x" and "x \<le> y"
  shows "round_val x \<le> round_val y"
proof (cases "expo x = expo y")
  case True
  have "x / 2 powi expo y \<le> y / 2 powi expo y"
    using assms(2) by (simp add: divide_right_mono)
  then have "rhe (x / 2 powi expo y) \<le> rhe (y / 2 powi expo y)"
    by (rule rhe_mono)
  then have "(of_int (rhe (x / 2 powi expo y)) :: rat) \<le> of_int (rhe (y / 2 powi expo y))"
    by simp
  then show ?thesis
    unfolding round_val_def True by (rule mult_right_mono) simp
next
  case False
  with expo_mono [OF assms(2)] have lt: "expo x < expo y" by simp
  with expo_range [of y] have "expo x < 971" by simp
  then have "x < 2 powi (expo x + 53)"
    by (rule expo_upper)
  then have "x / 2 powi expo x \<le> 2 powi (expo x + 53) / 2 powi expo x"
    by (simp add: divide_right_mono)
  also have "\<dots> = of_int (2 ^ 53)"
    by (simp add: power_int_add)
  finally have "rhe (x / 2 powi expo x) \<le> 2 ^ 53"
    by (rule rhe_le)
  then have "(of_int (rhe (x / 2 powi expo x)) :: rat) \<le> of_int (2 ^ 53)"
    by (simp only: of_int_le_iff)
  then have "round_val x \<le> of_int (2 ^ 53) * 2 powi expo x"
    unfolding round_val_def by (rule mult_right_mono) simp
  also have "\<dots> = 2 powi (expo x + 53)"
    by (simp add: power_int_add)
  also have "\<dots> \<le> 2 powi (expo y + 52)"
    using lt by (intro power_int_increasing) simp_all
  finally have left: "round_val x \<le> 2 powi (expo y + 52)" .
  from lt expo_range [of x] have "- 1074 < expo y" by simp
  then have "2 powi (expo y + 52) \<le> y"
    by (rule expo_lower)
  then have "2 powi (expo y + 52) / 2 powi expo y \<le> y / 2 powi expo y"
    by (simp add: divide_right_mono)
  moreover have "2 powi (expo y + 52) / 2 powi expo y = (of_int (2 ^ 52) :: rat)"
    by (simp add: power_int_add)
  ultimately have "of_int (2 ^ 52) \<le> y / 2 powi expo y"
    by simp
  then have "2 ^ 52 \<le> rhe (y / 2 powi expo y)"
    by (rule rhe_ge)
  then have "(of_int (2 ^ 52) :: rat) \<le> of_int (rhe (y / 2 powi expo y))"
    by (simp only: of_int_le_iff)
  then have "of_int (2 ^ 52) * 2 powi expo y \<le> round_val y"
    unfolding round_val_def by (rule mult_right_mono) simp
  moreover have "of_int (2 ^ 52) * 2 powi expo y = (2::rat) powi (expo y + 52)"
    by (simp add: power_int_add)
  ultimately have "2 powi (expo y + 52) \<le> round_val y"
    by simp
  with left show ?thesis
    by simp
qed

lemma round_val_nonneg:
  assumes "0 \<le> x"
  shows "0 \<le> round_val x"
proof -
  from assms have "of_int 0 \<le> x / 2 powi expo x"
    by simp
  then have "0 \<le> rhe (x / 2 powi expo x)"
    by (rule rhe_ge)
  then show ?thesis
    by (simp add: round_val_def)
qed


lemma round_val_exact:
  assumes "x / 2 powi expo x = of_int k"
  shows "round_val x = x"
proof -
  have "round_val x = of_int k * 2 powi expo x"
    by (simp add: round_val_def assms rhe_of_int)
  also have "\<dots> = x / 2 powi expo x * 2 powi expo x"
    by (simp only: assms)
  also have "\<dots> = x"
    by simp
  finally show ?thesis .
qed

lemma round_val_fix:
  assumes v: "v = of_int m * 2 powi e0" and m: "0 < m" "m \<le> 2 ^ 53" and e0: "- 1074 \<le> e0"
  shows "round_val v = v"
proof (cases "expo v \<le> e0")
  case True
  then have "(2::rat) powi (e0 - expo v) = 2 ^ nat (e0 - expo v)"
    by (simp add: power_int_nonneg_exp)
  moreover have "v / 2 powi expo v = of_int m * 2 powi (e0 - expo v)"
    by (simp add: v power_int_diff)
  ultimately have "v / 2 powi expo v = of_int (m * 2 ^ nat (e0 - expo v))"
    by simp
  then show ?thesis
    by (rule round_val_exact)
next
  case False
  then have gt: "e0 < expo v" by simp
  with e0 have "- 1074 < expo v" by simp
  then have lo: "2 powi (expo v + 52) \<le> v"
    by (rule expo_lower)
  have "(of_int m :: rat) \<le> of_int (2 ^ 53)"
    using m(2) by (simp only: of_int_le_iff)
  then have "v \<le> of_int (2 ^ 53) * 2 powi e0"
    unfolding v by (rule mult_right_mono) simp
  also have "\<dots> = 2 powi (e0 + 53)"
    by (simp add: power_int_add)
  finally have hi: "v \<le> 2 powi (e0 + 53)" .
  from gt have "e0 + 53 \<le> expo v + 52" by simp
  then have "(2::rat) powi (e0 + 53) \<le> 2 powi (expo v + 52)"
    by (intro power_int_increasing) simp_all
  with lo hi have eq: "v = 2 powi (expo v + 52)"
    by simp
  have "v / 2 powi expo v = 2 powi (expo v + 52) / 2 powi expo v"
    using eq by simp
  also have "\<dots> = of_int (2 ^ 52)"
    by (simp add: power_int_add)
  finally show ?thesis
    by (rule round_val_exact)
qed

lemma round_val_zero: "round_val 0 = 0"
  by (simp add: round_val_def rhe_def)

lemma round_val_shape:
  assumes "0 < x" and "round_val x < 2 ^ 1024"
  shows "round_val x = 0 \<or>
    (\<exists>m. round_val x = of_int m * 2 powi expo x \<and> 0 < m \<and> m \<le> 2 ^ 53)"
proof -
  let ?m = "rhe (x / 2 powi expo x)"
  from assms(1) have "of_int 0 \<le> x / 2 powi expo x"
    by simp
  then have nonneg: "0 \<le> ?m"
    by (rule rhe_ge)
  have le: "?m \<le> 2 ^ 53"
  proof (cases "expo x < 971")
    case True
    then have "x < 2 powi (expo x + 53)"
      by (rule expo_upper)
    then have "x / 2 powi expo x \<le> 2 powi (expo x + 53) / 2 powi expo x"
      by (simp add: divide_right_mono)
    also have "\<dots> = of_int (2 ^ 53)"
      by (simp add: power_int_add)
    finally show ?thesis
      by (rule rhe_le)
  next
    case False
    with expo_range [of x] have e: "expo x = 971" by simp
    from assms(2) have "of_int ?m * (2::rat) ^ 971 < 2 ^ 1024"
      by (simp add: round_val_def e)
    also have "(2::rat) ^ 1024 = 2 ^ 53 * 2 ^ 971"
      by (simp add: power_add [symmetric])
    finally have "(of_int ?m :: rat) < 2 ^ 53"
      by simp
    then have "(of_int ?m :: rat) < of_int (2 ^ 53)"
      by simp
    then have "?m < 2 ^ 53"
      by (simp only: of_int_less_iff)
    then show ?thesis by simp
  qed
  show ?thesis
  proof (cases "?m = 0")
    case True
    then show ?thesis by (simp add: round_val_def)
  next
    case False
    with nonneg have "0 < ?m" by simp
    with le show ?thesis
      unfolding round_val_def by blast
  qed
qed

lemma floor_of_binary64:
  assumes v: "(v::rat) = of_int m * 2 powi e0" and m: "0 < m" "m \<le> 2 ^ 53" and e0: "- 1074 \<le> e0"
    and pos: "0 < \<lfloor>v\<rfloor>"
  shows "round_val (of_int \<lfloor>v\<rfloor>) = of_int \<lfloor>v\<rfloor>"
proof (cases "0 \<le> e0")
  case True
  then have "(2::rat) powi e0 = 2 ^ nat e0"
    by (simp add: power_int_nonneg_exp)
  then have "v = of_int (m * 2 ^ nat e0)"
    by (simp add: v)
  then have int_v: "of_int \<lfloor>v\<rfloor> = v"
    by simp
  show ?thesis
    unfolding int_v by (rule round_val_fix [OF v m e0])
next
  case False
  then have "e0 \<le> - 1" by simp
  then have "(2::rat) powi e0 \<le> 2 powi (- 1)"
    by (intro power_int_increasing) simp_all
  then have half: "(2::rat) powi e0 \<le> 1 / 2"
    by (simp add: power_int_minus_divide)
  have "(of_int m :: rat) \<le> of_int (2 ^ 53)"
    using m(2) by (simp only: of_int_le_iff)
  then have "v \<le> of_int (2 ^ 53) * 2 powi e0"
    unfolding v by (rule mult_right_mono) simp
  also have "\<dots> \<le> of_int (2 ^ 53) * (1 / 2)"
    using half by (intro mult_left_mono) simp_all
  also have "\<dots> = of_int (2 ^ 52)"
    by simp
  finally have "v \<le> of_int (2 ^ 52)" .
  then have "\<lfloor>v\<rfloor> \<le> 2 ^ 52"
    by (simp add: floor_le_iff)
  then have small: "\<lfloor>v\<rfloor> \<le> 2 ^ 53"
    by simp
  have "(of_int \<lfloor>v\<rfloor> :: rat) = of_int \<lfloor>v\<rfloor> * 2 powi 0"
    by simp
  from round_val_fix [OF this pos small] show ?thesis
    by simp
qed


lemma round64_nonneg:
  assumes "0 \<le> x"
  shows "round64 x = (if 2 ^ 1024 \<le> round_val x then PInf else Finite (round_val x))"
proof (cases "x = 0")
  case True
  then show ?thesis
    by (simp add: round64_def round_val_zero)
next
  case False
  with assms show ?thesis
    by (simp add: round64_def round_pos_def Let_def)
qed

lemma round64_mono:
  assumes "0 \<le> x" and "x \<le> y" and "round64 y = Finite b"
  shows "\<exists>a. round64 x = Finite a \<and> 0 \<le> a \<and> a \<le> b"
proof -
  from assms(1,2) have y: "0 \<le> y" by simp
  have le: "round_val x \<le> round_val y"
  proof (cases "x = 0")
    case True
    then show ?thesis
      using round_val_nonneg [OF y] by (simp add: round_val_zero)
  next
    case False
    with assms(1) have "0 < x" by simp
    then show ?thesis
      using assms(2) by (rule round_val_mono)
  qed
  from assms(3) have b: "b = round_val y" and fin: "\<not> 2 ^ 1024 \<le> round_val y"
    by (auto simp: round64_nonneg [OF y] split: if_splits)
  from le fin have "\<not> 2 ^ 1024 \<le> round_val x"
    by simp
  then have "round64 x = Finite (round_val x)"
    by (simp add: round64_nonneg [OF assms(1)])
  with le b round_val_nonneg [OF assms(1)] show ?thesis
    by simp
qed

lemma round64_sign:
  assumes "0 \<le> x"
  shows "round64 x = PInf \<or> (\<exists>a. round64 x = Finite a \<and> 0 \<le> a)"
  using round_val_nonneg [OF assms] by (simp add: round64_nonneg [OF assms])

lemma round64_floor:
  assumes "0 \<le> x" and "round64 x = Finite v"
  shows "round64 (of_int \<lfloor>v\<rfloor>) = Finite (of_int \<lfloor>v\<rfloor>)"
proof -
  from assms have v: "v = round_val x" and fin: "round_val x < 2 ^ 1024"
    by (auto simp: round64_nonneg split: if_splits)
  from round_val_nonneg [OF assms(1)] have v0: "0 \<le> v"
    by (simp add: v)
  then have f0: "0 \<le> \<lfloor>v\<rfloor>"
    by simp
  show ?thesis
  proof (cases "\<lfloor>v\<rfloor> = 0")
    case True
    then show ?thesis
      by (simp add: round64_def)
  next
    case False
    with f0 have fpos: "0 < \<lfloor>v\<rfloor>" by linarith
    then have "v \<noteq> 0"
      by (cases "v = 0") simp_all
    with v round_val_zero have "x \<noteq> 0" by auto
    with assms(1) have xpos: "0 < x" by simp
    from round_val_shape [OF xpos fin] \<open>v \<noteq> 0\<close> obtain m where
      shape: "v = of_int m * 2 powi expo x" and m: "0 < m" "m \<le> 2 ^ 53"
      by (auto simp: v)
    from expo_range [of x] have e: "- 1074 \<le> expo x" by simp
    from floor_of_binary64 [OF shape m e fpos]
    have fixed: "round_val (of_int \<lfloor>v\<rfloor>) = of_int \<lfloor>v\<rfloor>" .
    have "(of_int \<lfloor>v\<rfloor> :: rat) \<le> v"
      by simp
    with fin v have "(of_int \<lfloor>v\<rfloor> :: rat) < 2 ^ 1024"
      by simp
    moreover from f0 have "(0::rat) \<le> of_int \<lfloor>v\<rfloor>"
      by simp
    ultimately show ?thesis
      by (simp add: round64_nonneg fixed)
  qed
qed

lemma round64_of_int:
  assumes "0 \<le> k" and "k \<le> 2 ^ 53"
  shows "round64 (of_int k) = Finite (of_int k)"
proof (cases "k = 0")
  case True
  then show ?thesis by (simp add: round64_def)
next
  case False
  with assms(1) have pos: "0 < k" by simp
  have "(of_int k :: rat) = of_int k * 2 powi 0"
    by simp
  from round_val_fix [OF this pos assms(2)] have fixed: "round_val (of_int k) = of_int k"
    by simp
  have "(of_int k :: rat) \<le> of_int (2 ^ 53)"
    using assms(2) by (simp only: of_int_le_iff)
  also have "\<dots> < 2 ^ 1024"
    by simp
  finally have "(of_int k :: rat) < 2 ^ 1024" .
  moreover from pos have "(0::rat) \<le> of_int k" by simp
  ultimately show ?thesis
    by (simp add: round64_nonneg fixed)
qed

lemma round64_numeral:
  "numeral n \<le> (2 ^ 53 :: int) \<Longrightarrow> round64 (numeral n) = Finite (numeral n)"
  using round64_of_int [of "numeral n"] by simp

lemma round64_zero: "round64 0 = Finite 0"
  by (simp add: round64_def)

lemma round64_minus: "round64 (- x) = fl_neg (round64 x)"
  by (cases "x = 0"; cases "0 < x") (auto simp: round64_def round_pos_def Let_def)

lemma round64_at:
  assumes "0 < x" and "- 1074 \<le> e" and "e \<le> 971"
    and "x < 2 powi (e + 53)" and "e = - 1074 \<or> 2 powi (e + 52) \<le> x"
    and "rhe (x / 2 powi e) = m" and "of_int m * 2 powi e < (2::rat) ^ 1024"
  shows "round64 x = Finite (of_int m * 2 powi e)"
proof -
  have "expo x = e"
    using assms(2,3) assms(4,5) by (intro expo_eq) simp_all
  then have "round_val x = of_int m * 2 powi e"
    by (simp add: round_val_def assms(6))
  with assms(1,7) show ?thesis
    by (simp add: round64_def round_pos_def)
qed

lemma round64_overflow:
  assumes "2 ^ 1024 \<le> x"
  shows "round64 x = PInf"
proof -
  have "(0::rat) < 2 ^ 1024" by simp
  from this assms have pos: "0 < x" by (rule less_le_trans)
  have "(2::rat) powi (971 + 52) \<le> 2 ^ 1024"
    by simp
  with assms have "2 powi (971 + 52) \<le> x"
    by (rule order_trans [rotated])
  then have e: "expo x = 971"
    by (intro expo_eq) simp_all
  from assms have "of_int (2 ^ 53) \<le> x / 2 powi 971"
    by (simp add: le_divide_eq power_add [symmetric])
  then have "2 ^ 53 \<le> rhe (x / 2 powi 971)"
    by (rule rhe_ge)
  then have "(of_int (2 ^ 53) :: rat) \<le> of_int (rhe (x / 2 powi 971))"
    by (simp only: of_int_le_iff)
  then have "of_int (2 ^ 53) * 2 powi 971 \<le> round_val x"
    unfolding round_val_def e by (rule mult_right_mono) simp
  moreover have "of_int (2 ^ 53) * 2 powi 971 = (2::rat) ^ 1024"
    by (simp add: power_add [symmetric])
  ultimately have "2 ^ 1024 \<le> round_val x"
    by simp
  with pos show ?thesis
    by (simp add: round64_def round_pos_def)
qed

lemma floor_rat_numeral:
  "\<lfloor>(numeral a :: rat) / numeral b\<rfloor> = numeral a div numeral b"
  using floor_divide_of_int_eq [of "numeral a" "numeral b", where ?'a = rat] by simp

section \<open>Seed counts: roundings of the examples\<close>

lemma round64_40000_3: "round64 (40000 / 3) = Finite (7330077518506667 / 549755813888)"
proof -
  have "round64 (40000 / 3) = Finite (of_int 7330077518506667 * 2 powi (- 39))"
    by (rule round64_at) (simp_all add: rhe_def Let_def floor_rat_numeral)
  then show ?thesis by simp
qed

lemma round64_20000_3: "round64 (20000 / 3) = Finite (7330077518506667 / 1099511627776)"
proof -
  have "round64 (20000 / 3) = Finite (of_int 7330077518506667 * 2 powi (- 40))"
    by (rule round64_at) (simp_all add: rhe_def Let_def floor_rat_numeral)
  then show ?thesis by simp
qed

lemma round64_19999_2: "round64 (19999 / 2) = Finite (19999 / 2)"
proof -
  have "round64 (19999 / 2) = Finite (of_int 5497283260973056 * 2 powi (- 39))"
    by (rule round64_at) (simp_all add: rhe_def Let_def floor_rat_numeral)
  then show ?thesis by simp
qed

lemma round64_400000_7: "round64 (400000 / 7) = Finite (3926827242057143 / 68719476736)"
proof -
  have "round64 (400000 / 7) = Finite (of_int 7853654484114286 * 2 powi (- 37))"
    by (rule round64_at) (simp_all add: rhe_def Let_def floor_rat_numeral)
  then show ?thesis by simp
qed

lemma fl_mul_Finite: "fl_mul (Finite x) (Finite y) = round64 (x * y)"
  by (simp add: fl_mul_def)

lemma fl_div_Finite:
  "fl_div (Finite x) (Finite y) =
     (if y = 0 then Inl ZeroDivisionError else Inr (round64 (x / y)))"
  by (simp add: fl_div_def fl_quot_def)

lemmas round64_examples = fl_mul_Finite fl_div_Finite round64_zero
  round64_numeral round64_minus round64_40000_3 round64_20000_3 round64_19999_2
  round64_400000_7

section \<open>Seed counts: the loop and the estimates of the specification\<close>

lemma quantify_seeds_loop_estimates:
  "quantify_seeds_loop tree_dict out =
     (out @ fst (spec_estimates tree_dict), snd (spec_estimates tree_dict))"
proof (induction tree_dict arbitrary: out)
  case Nil
  show ?case by simp
next
  case (Cons rec rest)
  obtain name x1 x2 x3 where rec: "rec = (name, x1, x2, x3)"
    by (cases rec) auto
  show ?case
    by (simp add: rec spec_estimate_def spec_count_def spec_mean_def Cons.IH
        split: sum.splits prod.splits)
qed

lemma quantify_seeds_estimates: "quantify_seeds tree_dict = spec_estimates tree_dict"
  by (simp add: quantify_seeds_def quantify_seeds_loop_estimates)

lemma spec_estimates_length:
  "length (fst (spec_estimates tree_dict)) \<le> length tree_dict \<and>
   (snd (spec_estimates tree_dict) = None \<longrightarrow>
      length (fst (spec_estimates tree_dict)) = length tree_dict)"
  by (induction tree_dict) (auto split: sum.splits prod.splits)

lemma spec_estimates_nth:
  "i < length (fst (spec_estimates tree_dict)) \<Longrightarrow>
     spec_estimate (tree_dict ! i) = Inr (fst (spec_estimates tree_dict) ! i)"
proof (induction tree_dict arbitrary: i)
  case Nil
  then show ?case by simp
next
  case (Cons rec rest)
  show ?case
  proof (cases "spec_estimate rec")
    case (Inl e)
    with Cons.prems show ?thesis by simp
  next
    case (Inr r)
    show ?thesis
    proof (cases i)
      case 0
      with Inr show ?thesis by (simp split: prod.splits)
    next
      case (Suc j)
      with Cons.prems Inr have "j < length (fst (spec_estimates rest))"
        by (simp split: prod.splits)
      from Cons.IH [OF this] Suc Inr show ?thesis
        by (simp split: prod.splits)
    qed
  qed
qed

lemma spec_estimates_error:
  "snd (spec_estimates tree_dict) = Some e \<Longrightarrow>
     \<exists>rec \<in> set tree_dict. spec_estimate rec = Inl e"
  by (induction tree_dict) (auto split: sum.splits prod.splits)

lemma spec_estimates_all:
  assumes "\<forall>rec \<in> set tree_dict. \<forall>r. spec_estimate rec = Inr r \<longrightarrow> P r"
  shows "list_all P (fst (spec_estimates tree_dict))"
  using assms by (induction tree_dict) (auto split: sum.splits prod.splits)

section \<open>Seed counts: the exceptions of one record\<close>

lemma py_float_error: "py_float x = Inl e \<Longrightarrow> e = OverflowError"
  by (cases x) (auto split: fl.splits)

lemma fl_div_error: "fl_div a b = Inl e \<Longrightarrow> e = ZeroDivisionError \<and> b = Finite 0"
  by (auto simp: fl_div_def split: if_splits)

lemma py_floor_error: "py_floor q = Inl e \<Longrightarrow> e = OverflowError \<or> e = ValueError"
  by (cases q) auto

lemma int_truediv_2_error: "int_truediv k 2 = Inl e \<Longrightarrow> e = OverflowError"
  by (auto simp: int_truediv_def split: fl.splits)

lemma spec_count_error:
  "spec_count a w = Inl e \<Longrightarrow>
     e = ZeroDivisionError \<and> w = Finite 0 \<or> e = OverflowError \<or> e = ValueError"
  by (auto simp: spec_count_def split: sum.splits dest: fl_div_error py_floor_error)

lemma spec_mean_error: "spec_mean lo hi = Inl e \<Longrightarrow> e = OverflowError \<or> e = ValueError"
  by (auto simp: spec_mean_def split: sum.splits dest: int_truediv_2_error py_floor_error)

lemma spec_estimate_error:
  assumes "spec_estimate rec = Inl e"
  shows "e = ZeroDivisionError \<and> zero_divisor rec \<or> e = OverflowError \<or> e = ValueError"
proof -
  obtain name x1 x2 x3 where rec: "rec = (name, x1, x2, x3)"
    by (cases rec) auto
  from assms show ?thesis
    by (auto simp: rec spec_estimate_def zero_divisor_def float_zero_def
        split: sum.splits
        dest: py_float_error spec_count_error spec_mean_error)
qed

lemma float_pos_not_zero: "float_pos x \<Longrightarrow> \<not> float_zero x"
  by (auto simp: float_pos_def float_zero_def)

lemma positive_divisors_not_zero: "positive_divisors rec \<Longrightarrow> \<not> zero_divisor rec"
  by (auto simp: positive_divisors_def zero_divisor_def dest: float_pos_not_zero)

lemma spec_estimates_zero_division:
  assumes "snd (spec_estimates tree_dict) = Some ZeroDivisionError"
  shows "\<exists>rec \<in> set tree_dict. zero_divisor rec"
proof -
  from spec_estimates_error [OF assms] obtain rec where
    rec: "rec \<in> set tree_dict" and "spec_estimate rec = Inl ZeroDivisionError"
    by auto
  from spec_estimate_error [OF this(2)] have "zero_divisor rec"
    by simp
  with rec show ?thesis ..
qed

lemma spec_estimates_error_kinds:
  assumes "snd (spec_estimates tree_dict) = Some e"
  shows "e = ZeroDivisionError \<or> e = OverflowError \<or> e = ValueError"
proof -
  from spec_estimates_error [OF assms] obtain rec where "spec_estimate rec = Inl e"
    by auto
  from spec_estimate_error [OF this] show ?thesis
    by auto
qed

lemma spec_estimate_fields:
  assumes "spec_estimate (name, x1, x2, x3) = Inr r"
  shows "\<exists>minWeight maxWeight availableWeight q1 q2 q3.
      py_float x1 = Inr minWeight \<and> py_float x2 = Inr maxWeight \<and>
      py_float x3 = Inr availableWeight \<and>
      fl_div (fl_mul availableWeight (Finite 1000)) minWeight = Inr (Finite q1) \<and>
      fl_div (fl_mul availableWeight (Finite 1000)) maxWeight = Inr (Finite q2) \<and>
      int_truediv (\<lfloor>q2\<rfloor> + \<lfloor>q1\<rfloor>) 2 = Inr (Finite q3) \<and>
      r = \<lparr>tree_name = name, min_seed_count = \<lfloor>q2\<rfloor>, max_seed_count = \<lfloor>q1\<rfloor>,
           mean_seed_count = \<lfloor>q3\<rfloor>\<rparr>"
proof -
  have fin: "\<exists>v. q = Finite v \<and> c = \<lfloor>v\<rfloor>" if "py_floor q = Inr c" for q c
    using that by (cases q) auto
  from assms obtain w1 w2 a where
    conv: "py_float x1 = Inr w1" "py_float x2 = Inr w2" "py_float x3 = Inr a"
    by (auto simp: spec_estimate_def split: sum.splits)
  from assms conv obtain hi lo mean where
    counts: "spec_count a w1 = Inr hi" "spec_count a w2 = Inr lo" "spec_mean lo hi = Inr mean"
    and r: "r = \<lparr>tree_name = name, min_seed_count = lo, max_seed_count = hi,
                 mean_seed_count = mean\<rparr>"
    by (auto simp: spec_estimate_def split: sum.splits)
  from counts(1) obtain q1 where q1: "fl_div (fl_mul a (Finite 1000)) w1 = Inr (Finite q1)"
    and hi: "hi = \<lfloor>q1\<rfloor>"
    by (auto simp: spec_count_def split: sum.splits dest: fin)
  from counts(2) obtain q2 where q2: "fl_div (fl_mul a (Finite 1000)) w2 = Inr (Finite q2)"
    and lo: "lo = \<lfloor>q2\<rfloor>"
    by (auto simp: spec_count_def split: sum.splits dest: fin)
  from counts(3) obtain q3 where q3: "int_truediv (lo + hi) 2 = Inr (Finite q3)"
    and mean: "mean = \<lfloor>q3\<rfloor>"
    by (auto simp: spec_mean_def split: sum.splits dest: fin)
  from conv q1 q2 q3 r show ?thesis
    unfolding hi lo mean by blast
qed

section \<open>Seed counts: order of the counts of one record\<close>

lemma fl_mul_1000_pos:
  assumes "fl_pos a"
  shows "fl_mul a (Finite 1000) = PInf \<or> (\<exists>t. fl_mul a (Finite 1000) = Finite t \<and> 0 \<le> t)"
proof (cases a)
  case (Finite x)
  with assms have "0 \<le> x * 1000" by simp
  from round64_sign [OF this] show ?thesis
    by (simp add: Finite fl_mul_def)
next
  case PInf
  then show ?thesis by (simp add: fl_mul_def fl_inf_def)
next
  case MInf
  with assms show ?thesis by simp
next
  case NaN
  with assms show ?thesis by simp
qed

lemma count_from_inf:
  assumes "fl_pos w" and "fl_div PInf w = Inr q"
  shows "py_floor q = Inl OverflowError \<or> py_floor q = Inl ValueError"
  using assms by (cases w) (auto simp: fl_div_def fl_quot_def fl_inf_def split: if_splits)

lemma count_from_finite:
  assumes t: "0 \<le> t" and w: "fl_pos w"
    and q: "fl_div (Finite t) w = Inr q" and c: "py_floor q = Inr c"
  shows "0 \<le> c \<and> round64 (of_int c) = Finite (of_int c)"
proof (cases w)
  case (Finite y)
  with w have y: "0 < y" by simp
  with t have x0: "0 \<le> t / y" by simp
  from q y have q_def: "q = round64 (t / y)"
    by (simp add: Finite fl_div_def fl_quot_def)
  from c obtain v where v: "q = Finite v" and cv: "c = \<lfloor>v\<rfloor>"
    by (cases q) auto
  from v q_def have r: "round64 (t / y) = Finite v" by simp
  from round64_sign [OF x0] r have "0 \<le> v" by simp
  then have "0 \<le> c" by (simp add: cv)
  moreover from round64_floor [OF x0 r] have "round64 (of_int c) = Finite (of_int c)"
    by (simp add: cv)
  ultimately show ?thesis ..
next
  case PInf
  with q have "q = Finite 0"
    by (simp add: fl_div_def fl_quot_def)
  with c have "c = 0" by simp
  then show ?thesis by (simp add: round64_def)
next
  case MInf
  with w show ?thesis by simp
next
  case NaN
  with w show ?thesis by simp
qed

lemma count_mono:
  assumes t: "0 \<le> t" and w1: "fl_pos w1" and le: "fl_le w1 w2"
    and q1: "fl_div (Finite t) w1 = Inr q1" and c1: "py_floor q1 = Inr c1"
    and q2: "fl_div (Finite t) w2 = Inr q2" and c2: "py_floor q2 = Inr c2"
  shows "c2 \<le> c1"
proof (cases w2)
  case w2: (Finite y2)
  from le w2 w1 obtain y1 where w1F: "w1 = Finite y1" and y12: "y1 \<le> y2"
    by (cases w1) (auto simp: fl_le_def)
  from w1 w1F have y1: "0 < y1" by simp
  with y12 have y2: "0 < y2" by simp
  from q1 y1 have q1_def: "q1 = round64 (t / y1)"
    by (simp add: w1F fl_div_def fl_quot_def)
  from q2 y2 have q2_def: "q2 = round64 (t / y2)"
    by (simp add: w2 fl_div_def fl_quot_def)
  from c1 obtain v1 where v1: "q1 = Finite v1" and cv1: "c1 = \<lfloor>v1\<rfloor>"
    by (cases q1) auto
  from c2 obtain v2 where v2: "q2 = Finite v2" and cv2: "c2 = \<lfloor>v2\<rfloor>"
    by (cases q2) auto
  from t y2 have x0: "0 \<le> t / y2" by simp
  have mono: "t / y2 \<le> t / y1"
    using t y1 y12 by (intro divide_left_mono) simp_all
  from v1 q1_def have "round64 (t / y1) = Finite v1" by simp
  from round64_mono [OF x0 mono this] v2 q2_def have "v2 \<le> v1"
    by auto
  then show ?thesis
    unfolding cv1 cv2 by (rule floor_mono)
next
  case w2: PInf
  with q2 have "q2 = Finite 0"
    by (simp add: fl_div_def fl_quot_def)
  with c2 have "c2 = 0" by simp
  with count_from_finite [OF t w1 q1 c1] show ?thesis by simp
next
  case MInf
  with le w1 show ?thesis by (cases w1) (auto simp: fl_le_def)
next
  case NaN
  with le show ?thesis by (cases w1) (auto simp: fl_le_def)
qed

lemma mean_rounded:
  assumes lo0: "0 \<le> lo" and le: "lo \<le> hi"
    and lo: "round64 (of_int lo) = Finite (of_int lo)"
    and hi: "round64 (of_int hi) = Finite (of_int hi)"
  shows "\<exists>a. int_truediv (lo + hi) 2 = Inr (Finite a) \<and> of_int lo \<le> a \<and> a \<le> of_int hi"
proof -
  define mid :: rat where "mid = (of_int lo + of_int hi) / 2"
  from le have le': "(of_int lo :: rat) \<le> of_int hi"
    by (simp only: of_int_le_iff)
  from lo0 have lo0': "(0::rat) \<le> of_int lo"
    by simp
  from le' have mid_lo: "of_int lo \<le> mid" and mid_hi: "mid \<le> of_int hi"
    by (simp_all add: mid_def)
  from lo0' mid_lo have mid0: "0 \<le> mid"
    by (rule order_trans)
  from round64_mono [OF mid0 mid_hi hi] obtain a where
    a: "round64 mid = Finite a" and a_hi: "a \<le> of_int hi"
    by auto
  from round64_mono [OF lo0' mid_lo a] lo have a_lo: "of_int lo \<le> a"
    by auto
  have "int_truediv (lo + hi) 2 = Inr (Finite a)"
    using a by (simp add: int_truediv_def mid_def)
  with a_lo a_hi show ?thesis
    by blast
qed

lemma mean_between:
  assumes lo0: "0 \<le> lo" and le: "lo \<le> hi"
    and lo: "round64 (of_int lo) = Finite (of_int lo)"
    and hi: "round64 (of_int hi) = Finite (of_int hi)"
    and mean: "spec_mean lo hi = Inr mean"
  shows "lo \<le> mean \<and> mean \<le> hi"
proof -
  from mean_rounded [OF lo0 le lo hi] obtain a where
    a: "int_truediv (lo + hi) 2 = Inr (Finite a)" and a_lo: "of_int lo \<le> a"
    and a_hi: "a \<le> of_int hi"
    by auto
  from a mean have "mean = \<lfloor>a\<rfloor>"
    by (simp add: spec_mean_def)
  with a_lo a_hi show ?thesis
    by (simp add: le_floor_iff floor_le_iff)
qed

lemma mean_exists:
  assumes "0 \<le> lo" and "lo \<le> hi"
    and "round64 (of_int lo) = Finite (of_int lo)"
    and "round64 (of_int hi) = Finite (of_int hi)"
  shows "\<exists>mean. spec_mean lo hi = Inr mean"
proof -
  from mean_rounded [OF assms] obtain a where "int_truediv (lo + hi) 2 = Inr (Finite a)"
    by auto
  then show ?thesis
    by (simp add: spec_mean_def)
qed

lemma count_exists:
  assumes t: "0 \<le> t" and w1: "fl_pos w1" and le: "fl_le w1 w2"
    and q1: "fl_div (Finite t) w1 = Inr (Finite v1)"
  shows "\<exists>v2. fl_div (Finite t) w2 = Inr (Finite v2)"
proof (cases w2)
  case w2: (Finite y2)
  from le w2 w1 obtain y1 where w1F: "w1 = Finite y1" and y12: "y1 \<le> y2"
    by (cases w1) (auto simp: fl_le_def)
  from w1 w1F have y1: "0 < y1" by simp
  with y12 have y2: "0 < y2" by simp
  from q1 y1 have r1: "round64 (t / y1) = Finite v1"
    by (simp add: w1F fl_div_def fl_quot_def)
  from t y2 have x0: "0 \<le> t / y2" by simp
  have mono: "t / y2 \<le> t / y1"
    using t y1 y12 by (intro divide_left_mono) simp_all
  from round64_mono [OF x0 mono r1] obtain v2 where "round64 (t / y2) = Finite v2"
    by auto
  with y2 show ?thesis
    by (simp add: w2 fl_div_def fl_quot_def)
next
  case PInf
  then show ?thesis
    by (simp add: fl_div_def fl_quot_def)
next
  case MInf
  with le w1 show ?thesis by (cases w1) (auto simp: fl_le_def)
next
  case NaN
  with le show ?thesis by (cases w1) (auto simp: fl_le_def)
qed

lemma spec_count_cases:
  assumes a: "fl_pos a" and w: "fl_pos w" and c: "spec_count a w = Inr c"
  obtains t q where "fl_mul a (Finite 1000) = Finite t" and "0 \<le> t"
    and "fl_div (Finite t) w = Inr q" and "py_floor q = Inr c"
proof -
  from c obtain q where q: "fl_div (fl_mul a (Finite 1000)) w = Inr q"
    and f: "py_floor q = Inr c"
    by (auto simp: spec_count_def split: sum.splits)
  from fl_mul_1000_pos [OF a] show ?thesis
  proof
    assume inf: "fl_mul a (Finite 1000) = PInf"
    with q have "fl_div PInf w = Inr q" by simp
    from count_from_inf [OF w this] f show ?thesis by auto
  next
    assume "\<exists>t. fl_mul a (Finite 1000) = Finite t \<and> 0 \<le> t"
    then obtain t where t: "fl_mul a (Finite 1000) = Finite t" "0 \<le> t"
      by auto
    with q have "fl_div (Finite t) w = Inr q" by simp
    from t this f show ?thesis by (rule that)
  qed
qed

lemma spec_estimate_ordered:
  assumes valid: "valid_record rec" and est: "spec_estimate rec = Inr r"
  shows "counts_ordered r"
proof -
  obtain name x1 x2 x3 where rec: "rec = (name, x1, x2, x3)"
    by (cases rec) auto
  from valid obtain w1 w2 a where
    conv: "py_float x1 = Inr w1" "py_float x2 = Inr w2" "py_float x3 = Inr a"
    and pos: "fl_pos w1" "fl_pos w2" "fl_pos a" and le: "fl_le w1 w2"
    by (auto simp: rec valid_record_def float_pos_def float_le_def split: sum.splits)
  from est conv obtain hi lo mean where
    counts: "spec_count a w1 = Inr hi" "spec_count a w2 = Inr lo" "spec_mean lo hi = Inr mean"
    and r: "r = \<lparr>tree_name = name, min_seed_count = lo, max_seed_count = hi,
                 mean_seed_count = mean\<rparr>"
    by (auto simp: rec spec_estimate_def split: sum.splits)
  from pos(3) pos(1) counts(1) obtain t q1 where
    t: "fl_mul a (Finite 1000) = Finite t" "0 \<le> t"
    and q1: "fl_div (Finite t) w1 = Inr q1" "py_floor q1 = Inr hi"
    by (rule spec_count_cases)
  from pos(3) pos(2) counts(2) obtain t' q2 where
    t': "fl_mul a (Finite 1000) = Finite t'"
    and q2': "fl_div (Finite t') w2 = Inr q2" "py_floor q2 = Inr lo"
    by (rule spec_count_cases)
  from t(1) t' have "t' = t" by simp
  with q2' have q2: "fl_div (Finite t) w2 = Inr q2" "py_floor q2 = Inr lo"
    by simp_all
  from count_from_finite [OF t(2) pos(1) q1] have hi: "round64 (of_int hi) = Finite (of_int hi)"
    by simp
  from count_from_finite [OF t(2) pos(2) q2] have lo0: "0 \<le> lo"
    and lo: "round64 (of_int lo) = Finite (of_int lo)"
    by simp_all
  from count_mono [OF t(2) pos(1) le q1 q2] have "lo \<le> hi" .
  from mean_between [OF lo0 this lo hi counts(3)] lo0 show ?thesis
    by (simp add: r counts_ordered_def)
qed

lemma spec_estimate_defined:
  assumes valid: "valid_record rec" and fin: "finite_quotient rec"
  shows "\<exists>r. spec_estimate rec = Inr r"
proof -
  obtain name x1 x2 x3 where rec: "rec = (name, x1, x2, x3)"
    by (cases rec) auto
  from valid obtain w1 w2 a where
    conv: "py_float x1 = Inr w1" "py_float x2 = Inr w2" "py_float x3 = Inr a"
    and pos: "fl_pos w1" "fl_pos w2" "fl_pos a" and le: "fl_le w1 w2"
    by (auto simp: rec valid_record_def float_pos_def float_le_def split: sum.splits)
  from fin conv obtain v1 where
    v1: "fl_div (fl_mul a (Finite 1000)) w1 = Inr (Finite v1)"
    by (auto simp: rec finite_quotient_def split: sum.splits fl.splits)
  then have hi: "spec_count a w1 = Inr \<lfloor>v1\<rfloor>"
    by (simp add: spec_count_def)
  from pos(3) pos(1) hi obtain t q1 where
    t: "fl_mul a (Finite 1000) = Finite t" "0 \<le> t"
    and q1: "fl_div (Finite t) w1 = Inr q1" "py_floor q1 = Inr \<lfloor>v1\<rfloor>"
    by (rule spec_count_cases)
  from v1 t(1) have d1: "fl_div (Finite t) w1 = Inr (Finite v1)"
    by simp
  from count_exists [OF t(2) pos(1) le d1] obtain v2 where
    d2: "fl_div (Finite t) w2 = Inr (Finite v2)"
    by auto
  then have lo: "spec_count a w2 = Inr \<lfloor>v2\<rfloor>"
    by (simp add: spec_count_def t(1))
  have f1: "py_floor (Finite v1) = Inr \<lfloor>v1\<rfloor>" and f2: "py_floor (Finite v2) = Inr \<lfloor>v2\<rfloor>"
    by simp_all
  from count_from_finite [OF t(2) pos(1) d1 f1]
  have hi_fl: "round64 (of_int \<lfloor>v1\<rfloor>) = Finite (of_int \<lfloor>v1\<rfloor>)"
    by simp
  from count_from_finite [OF t(2) pos(2) d2 f2]
  have lo0: "0 \<le> \<lfloor>v2\<rfloor>" and lo_fl: "round64 (of_int \<lfloor>v2\<rfloor>) = Finite (of_int \<lfloor>v2\<rfloor>)"
    by simp_all
  from count_mono [OF t(2) pos(1) le d1 f1 d2 f2] have "\<lfloor>v2\<rfloor> \<le> \<lfloor>v1\<rfloor>" .
  from mean_exists [OF lo0 this lo_fl hi_fl] obtain mean where
    "spec_mean \<lfloor>v2\<rfloor> \<lfloor>v1\<rfloor> = Inr mean"
    by auto
  with conv hi lo show ?thesis
    by (simp add: rec spec_estimate_def)
qed

lemma spec_estimates_total:
  assumes "\<forall>rec \<in> set tree_dict. \<exists>r. spec_estimate rec = Inr r"
  shows "snd (spec_estimates tree_dict) = None"
  using assms by (induction tree_dict) (auto split: sum.splits prod.splits)

section \<open>Seed counts: runs of the examples\<close>

lemma round64_1_1_times_1000:
  "round64 (2476979795053773 / 2251799813685248 * 1000) = Finite 1100"
proof -
  have "round64 (2476979795053773 / 2251799813685248 * 1000) =
      Finite (of_int 4837851162214400 * 2 powi (- 42))"
    by (rule round64_at) (simp_all add: rhe_def Let_def floor_rat_numeral)
  then show ?thesis by simp
qed

lemma round64_1100_over_1_1:
  "round64 (1100 / (2476979795053773 / 2251799813685248)) =
     Finite (8796093022207999 / 8796093022208)"
proof -
  have "round64 (1100 / (2476979795053773 / 2251799813685248)) =
      Finite (of_int 8796093022207999 * 2 powi (- 43))"
    by (rule round64_at) (simp_all add: rhe_def Let_def floor_rat_numeral)
  then show ?thesis by simp
qed

lemma run_1e306:
  "quantify_seeds_loop ((name, PyInt 4, PyInt 8, PyFloat f_1e306) # rest) out =
     (out, Some OverflowError)"
proof -
  have "(2::rat) ^ 1024 \<le> 6413338752028713 * 2 ^ 964 * 1000"
    by simp
  then have "round64 (6413338752028713 * 2 ^ 964 * 1000) = PInf"
    by (rule round64_overflow)
  then have "fl_mul f_1e306 (Finite 1000) = PInf"
    by (simp only: f_1e306_def fl_mul_Finite)
  then show ?thesis
    by (simp add: round64_numeral fl_div_def fl_quot_def fl_inf_def)
qed

lemma run_1_1:
  "quantify_seeds_loop [(name, PyFloat f_1_1, PyFloat f_1_1, PyFloat f_1_1)] out =
     (out @ [\<lparr>tree_name = name, min_seed_count = 999, max_seed_count = 999,
               mean_seed_count = 999\<rparr>], None)"
proof -
  have mul: "fl_mul f_1_1 (Finite 1000) = Finite 1100"
    by (simp only: f_1_1_def fl_mul_Finite round64_1_1_times_1000)
  have "fl_div (Finite 1100) f_1_1 = Inr (Finite (8796093022207999 / 8796093022208))"
    by (simp only: f_1_1_def fl_div_Finite round64_1100_over_1_1) simp
  with mul show ?thesis
    by (simp add: int_truediv_def round64_numeral floor_rat_numeral)
qed

lemma run_1em320:
  "quantify_seeds_loop ((name, PyFloat f_1em320, PyInt 8, PyInt 100) # rest) out =
     (out, Some OverflowError)"
proof -
  have "(2::rat) ^ 1024 \<le> 100000 / (2024 / 2 ^ 1074)"
    by simp
  then have "round64 (100000 / (2024 / 2 ^ 1074)) = PInf"
    by (rule round64_overflow)
  moreover have "(2024 / 2 ^ 1074 :: rat) \<noteq> 0"
    by simp
  ultimately have "fl_div (Finite 100000) f_1em320 = Inr PInf"
    by (simp only: f_1em320_def fl_div_Finite if_False)
  then show ?thesis
    by (simp add: round64_numeral fl_mul_Finite)
qed

lemmas run_simps =
  quantify_seeds_def int_truediv_def round64_examples floor_rat_numeral

section \<open>Seed counts: pairing of the bounds\<close>

text \<open>
  C2 as the specification states it: for every record with positive weights the
  estimate computes the three floors and the output has one estimate per input record.
  The record (4, 8, 1e306) has positive weights; the product 1e306 * 1000 overflows
  to the float infinity, \<^verbatim>\<open>math.floor\<close> of the infinite quotient raises
  \<^verbatim>\<open>OverflowError\<close>, and the run ends with no estimate for the record. The
  floors are floors of rounded float results, not of the exact quotients: with the
  three weights equal to the float 1.1 the function prints 999, 999 and 999, while
  the exact value of \<open>availableWeight * 1000 / minWeight\<close> is 1000.
\<close>

theorem quantify_seeds_positive_weights_no_estimate:
  "positive_weights (''Picea abies'', PyInt 4, PyInt 8, PyFloat f_1e306)
   \<and> quantify_seeds [(''Picea abies'', PyInt 4, PyInt 8, PyFloat f_1e306)] =
       ([], Some OverflowError)
   \<and> positive_weights (''Picea abies'', PyFloat f_1_1, PyFloat f_1_1, PyFloat f_1_1)
   \<and> quantify_seeds [(''Picea abies'', PyFloat f_1_1, PyFloat f_1_1, PyFloat f_1_1)] =
       ([\<lparr>tree_name = ''Picea abies'', min_seed_count = 999, max_seed_count = 999,
          mean_seed_count = 999\<rparr>], None)
   \<and> (case f_1_1 of Finite w \<Rightarrow> \<lfloor>w * 1000 / w\<rfloor> = 1000 | _ \<Rightarrow> False)"
proof -
  have "positive_weights (''Picea abies'', PyInt 4, PyInt 8, PyFloat f_1e306)"
    by (simp add: positive_weights_def float_pos_def round64_numeral f_1e306_def)
  moreover have "positive_weights (''Picea abies'', PyFloat f_1_1, PyFloat f_1_1, PyFloat f_1_1)"
    by (simp add: positive_weights_def float_pos_def f_1_1_def)
  moreover have "(case f_1_1 of Finite w \<Rightarrow> \<lfloor>w * 1000 / w\<rfloor> = 1000 | _ \<Rightarrow> False)"
    by (simp add: f_1_1_def)
  moreover have "quantify_seeds [(''Picea abies'', PyInt 4, PyInt 8, PyFloat f_1e306)] =
      ([], Some OverflowError)"
    by (simp only: quantify_seeds_def run_1e306)
  moreover have
    "quantify_seeds [(''Picea abies'', PyFloat f_1_1, PyFloat f_1_1, PyFloat f_1_1)] =
      ([\<lparr>tree_name = ''Picea abies'', min_seed_count = 999, max_seed_count = 999,
         mean_seed_count = 999\<rparr>], None)"
    by (simp only: quantify_seeds_def run_1_1 append_Nil)
  ultimately show ?thesis
    by simp
qed

text \<open>
  C2 as amended. For every table of records with positive weights the function prints
  its reports in the order of the table, one per record, up to the first record at which
  \<^verbatim>\<open>float\<close> or \<^verbatim>\<open>math.floor\<close> raises \<^verbatim>\<open>OverflowError\<close> or \<^verbatim>\<open>ValueError\<close>; it
  never raises \<^verbatim>\<open>ZeroDivisionError\<close>, and when it raises nothing there is one
  report per record. The report of a record (name, minWeight, maxWeight,
  availableWeight) carries the record's name and the floors of three float results:
  maxCount from the float quotient of the float product availableWeight * 1000 by
  minWeight, minCount from the quotient of the same product by maxWeight, meanCount from
  the true division of minCount + maxCount by 2. The lighter bound of the weight gives
  the larger count. The whole run is the sequence of estimates of the specification,
  taken in binary64 arithmetic.
\<close>

theorem quantify_seeds_pairing:
  assumes "list_all positive_weights tree_dict"
  shows "quantify_seeds tree_dict = spec_estimates tree_dict
    \<and> length (fst (quantify_seeds tree_dict)) \<le> length tree_dict
    \<and> (snd (quantify_seeds tree_dict) = None \<longrightarrow>
          length (fst (quantify_seeds tree_dict)) = length tree_dict)
    \<and> snd (quantify_seeds tree_dict) \<in> {None, Some OverflowError, Some ValueError}
    \<and> (\<forall>i < length (fst (quantify_seeds tree_dict)).
          case tree_dict ! i of (name, x1, x2, x3) \<Rightarrow>
            \<exists>minWeight maxWeight availableWeight q1 q2 q3.
              py_float x1 = Inr minWeight \<and> py_float x2 = Inr maxWeight \<and>
              py_float x3 = Inr availableWeight \<and>
              fl_div (fl_mul availableWeight (Finite 1000)) minWeight = Inr (Finite q1) \<and>
              fl_div (fl_mul availableWeight (Finite 1000)) maxWeight = Inr (Finite q2) \<and>
              int_truediv (\<lfloor>q2\<rfloor> + \<lfloor>q1\<rfloor>) 2 = Inr (Finite q3) \<and>
              fst (quantify_seeds tree_dict) ! i =
                \<lparr>tree_name = name, min_seed_count = \<lfloor>q2\<rfloor>, max_seed_count = \<lfloor>q1\<rfloor>,
                 mean_seed_count = \<lfloor>q3\<rfloor>\<rparr>)"
proof -
  have run: "quantify_seeds tree_dict = spec_estimates tree_dict"
    by (rule quantify_seeds_estimates)
  have no_zero: "snd (spec_estimates tree_dict) \<noteq> Some ZeroDivisionError"
  proof
    assume "snd (spec_estimates tree_dict) = Some ZeroDivisionError"
    from spec_estimates_zero_division [OF this] obtain rec where
      rec: "rec \<in> set tree_dict" and zero: "zero_divisor rec"
      by auto
    from assms rec have "positive_weights rec"
      by (simp add: list_all_iff)
    then have "positive_divisors rec"
      by (auto simp: positive_weights_def positive_divisors_def)
    from positive_divisors_not_zero [OF this] zero show False ..
  qed
  have kinds: "snd (spec_estimates tree_dict) \<in> {None, Some OverflowError, Some ValueError}"
  proof (cases "snd (spec_estimates tree_dict)")
    case None
    then show ?thesis by simp
  next
    case (Some e)
    from spec_estimates_error_kinds [OF this] no_zero Some show ?thesis
      by auto
  qed
  have fields: "case tree_dict ! i of (name, x1, x2, x3) \<Rightarrow>
      \<exists>minWeight maxWeight availableWeight q1 q2 q3.
        py_float x1 = Inr minWeight \<and> py_float x2 = Inr maxWeight \<and>
        py_float x3 = Inr availableWeight \<and>
        fl_div (fl_mul availableWeight (Finite 1000)) minWeight = Inr (Finite q1) \<and>
        fl_div (fl_mul availableWeight (Finite 1000)) maxWeight = Inr (Finite q2) \<and>
        int_truediv (\<lfloor>q2\<rfloor> + \<lfloor>q1\<rfloor>) 2 = Inr (Finite q3) \<and>
        fst (spec_estimates tree_dict) ! i =
          \<lparr>tree_name = name, min_seed_count = \<lfloor>q2\<rfloor>, max_seed_count = \<lfloor>q1\<rfloor>,
           mean_seed_count = \<lfloor>q3\<rfloor>\<rparr>"
    if "i < length (fst (spec_estimates tree_dict))" for i
  proof -
    obtain name x1 x2 x3 where rec: "tree_dict ! i = (name, x1, x2, x3)"
      by (cases "tree_dict ! i") auto
    from spec_estimates_nth [OF that] rec
    have "spec_estimate (name, x1, x2, x3) = Inr (fst (spec_estimates tree_dict) ! i)"
      by simp
    from spec_estimate_fields [OF this] show ?thesis
      by (simp add: rec)
  qed
  from spec_estimates_length [of tree_dict] kinds fields show ?thesis
    unfolding run by blast
qed

theorem quantify_seeds_pairing_witness:
  "list_all positive_weights tree_dictionary
   \<and> quantify_seeds tree_dictionary = spec_estimates tree_dictionary
   \<and> snd (quantify_seeds tree_dictionary) = None
   \<and> length (fst (quantify_seeds tree_dictionary)) = 4
   \<and> max_seed_count (fst (quantify_seeds tree_dictionary) ! 0) = 25000
   \<and> min_seed_count (fst (quantify_seeds tree_dictionary) ! 0) = 12500"
proof -
  have h: "list_all positive_weights tree_dictionary"
    by (simp add: tree_dictionary_def positive_weights_def float_pos_def round64_numeral)
  have run: "quantify_seeds tree_dictionary =
     ([\<lparr>tree_name = ''Picea abies'', min_seed_count = 12500,
        max_seed_count = 25000, mean_seed_count = 18750\<rparr>,
       \<lparr>tree_name = ''Pinus cembra'', min_seed_count = 6666,
        max_seed_count = 13333, mean_seed_count = 9999\<rparr>,
       \<lparr>tree_name = ''Acer pseudoplatanus'', min_seed_count = 12000,
        max_seed_count = 30000, mean_seed_count = 21000\<rparr>,
       \<lparr>tree_name = ''Sorbus aucuparia'', min_seed_count = 40000,
        max_seed_count = 57142, mean_seed_count = 48571\<rparr>], None)"
    by (simp add: tree_dictionary_def run_simps)
  from quantify_seeds_pairing [OF h] have "quantify_seeds tree_dictionary = spec_estimates tree_dictionary"
    by simp
  with h run show ?thesis
    by simp
qed

section \<open>Seed counts: order of the three counts\<close>

text \<open>
  C3. For every table of records that satisfy the input invariant (all weights strictly
  positive and minWeight at most maxWeight) every estimate the function prints satisfies
  0 \<le> minCount \<le> meanCount \<le> maxCount; the three counts are integers by their
  type. The order holds of the counts as the function computes them, in binary64
  arithmetic: rounding to nearest is monotone, and the floor of a non-negative float is
  a float. A record of the table is left without an estimate only when the run ends
  with \<^verbatim>\<open>OverflowError\<close> or \<^verbatim>\<open>ValueError\<close> (an infinite or undefined quotient);
  when the run raises nothing there is one estimate per record, and the run raises
  nothing when the quotient by minWeight is a finite float for every record.
\<close>

theorem quantify_seeds_counts_ordered:
  assumes "list_all valid_record tree_dict"
  shows "list_all (\<lambda>r. 0 \<le> min_seed_count r \<and> min_seed_count r \<le> mean_seed_count r \<and>
          mean_seed_count r \<le> max_seed_count r \<and> 0 \<le> mean_seed_count r \<and>
          0 \<le> max_seed_count r) (fst (quantify_seeds tree_dict))
    \<and> (snd (quantify_seeds tree_dict) = None \<longrightarrow>
          length (fst (quantify_seeds tree_dict)) = length tree_dict)
    \<and> snd (quantify_seeds tree_dict) \<in> {None, Some OverflowError, Some ValueError}
    \<and> (list_all finite_quotient tree_dict \<longrightarrow> snd (quantify_seeds tree_dict) = None)"
proof -
  have run: "quantify_seeds tree_dict = spec_estimates tree_dict"
    by (rule quantify_seeds_estimates)
  have total: "snd (spec_estimates tree_dict) = None" if fin: "list_all finite_quotient tree_dict"
  proof (rule spec_estimates_total, rule ballI)
    fix rec
    assume "rec \<in> set tree_dict"
    with assms fin have "valid_record rec" and "finite_quotient rec"
      by (simp_all add: list_all_iff)
    then show "\<exists>r. spec_estimate rec = Inr r"
      by (rule spec_estimate_defined)
  qed
  have "\<forall>rec \<in> set tree_dict. \<forall>r. spec_estimate rec = Inr r \<longrightarrow> counts_ordered r"
    using assms by (auto simp: list_all_iff intro: spec_estimate_ordered)
  then have ordered: "list_all counts_ordered (fst (spec_estimates tree_dict))"
    by (rule spec_estimates_all)
  have no_zero: "snd (spec_estimates tree_dict) \<noteq> Some ZeroDivisionError"
  proof
    assume "snd (spec_estimates tree_dict) = Some ZeroDivisionError"
    from spec_estimates_zero_division [OF this] obtain rec where
      rec: "rec \<in> set tree_dict" and zero: "zero_divisor rec"
      by auto
    from assms rec have "valid_record rec"
      by (simp add: list_all_iff)
    then have "positive_divisors rec"
      by (auto simp: valid_record_def positive_divisors_def)
    from positive_divisors_not_zero [OF this] zero show False ..
  qed
  have kinds: "snd (spec_estimates tree_dict) \<in> {None, Some OverflowError, Some ValueError}"
  proof (cases "snd (spec_estimates tree_dict)")
    case None
    then show ?thesis by simp
  next
    case (Some e)
    from spec_estimates_error_kinds [OF this] no_zero Some show ?thesis
      by auto
  qed
  from ordered spec_estimates_length [of tree_dict] kinds total show ?thesis
    by (simp add: run counts_ordered_def [abs_def])
qed

theorem quantify_seeds_counts_ordered_witness:
  "list_all valid_record tree_dictionary
   \<and> snd (quantify_seeds tree_dictionary) = None
   \<and> length (fst (quantify_seeds tree_dictionary)) = 4
   \<and> list_all (\<lambda>r. 0 \<le> min_seed_count r \<and> min_seed_count r \<le> mean_seed_count r \<and>
          mean_seed_count r \<le> max_seed_count r \<and> 0 \<le> mean_seed_count r \<and>
          0 \<le> max_seed_count r) (fst (quantify_seeds tree_dictionary))"
proof -
  have h: "list_all valid_record tree_dictionary"
    by (simp add: tree_dictionary_def valid_record_def float_pos_def float_le_def
        fl_le_def round64_numeral)
  have fin: "list_all finite_quotient tree_dictionary"
    by (simp add: tree_dictionary_def finite_quotient_def round64_examples)
  from quantify_seeds_counts_ordered [OF h] fin h show ?thesis
    by (simp add: tree_dictionary_def)
qed

section \<open>Seed counts: the divisions\<close>

text \<open>
  C10 as the specification states it: with strictly positive minWeight and maxWeight
  the computation is total. The records (4, 8, 1e306) and (1e-320, 8, 100) have
  positive divisors and the function raises \<^verbatim>\<open>OverflowError\<close> at each of them: the
  quotient is the float infinity, in the first because the product 1e306 * 1000
  overflows, in the second because 100000 / 1e-320 does, and \<^verbatim>\<open>math.floor\<close> of an
  infinity raises. A record with a zero divisor after such a record is never reached.
\<close>

theorem quantify_seeds_positive_divisors_not_total:
  "positive_divisors (''Picea abies'', PyInt 4, PyInt 8, PyFloat f_1e306)
   \<and> quantify_seeds [(''Picea abies'', PyInt 4, PyInt 8, PyFloat f_1e306)] =
       ([], Some OverflowError)
   \<and> positive_divisors (''Picea abies'', PyFloat f_1em320, PyInt 8, PyInt 100)
   \<and> quantify_seeds [(''Picea abies'', PyFloat f_1em320, PyInt 8, PyInt 100)] =
       ([], Some OverflowError)
   \<and> quantify_seeds [(''Picea abies'', PyInt 4, PyInt 8, PyFloat f_1e306),
                      (''Pinus cembra'', PyInt 0, PyInt 8, PyInt 100)] =
       ([], Some OverflowError)"
proof -
  have "positive_divisors (''Picea abies'', PyInt 4, PyInt 8, PyFloat f_1e306)"
    by (simp add: positive_divisors_def float_pos_def round64_numeral)
  moreover have "positive_divisors (''Picea abies'', PyFloat f_1em320, PyInt 8, PyInt 100)"
    by (simp add: positive_divisors_def float_pos_def round64_numeral f_1em320_def)
  moreover have "quantify_seeds [(''Picea abies'', PyInt 4, PyInt 8, PyFloat f_1e306)] =
      ([], Some OverflowError)"
    by (simp only: quantify_seeds_def run_1e306)
  moreover have "quantify_seeds [(''Picea abies'', PyFloat f_1em320, PyInt 8, PyInt 100)] =
      ([], Some OverflowError)"
    by (simp only: quantify_seeds_def run_1em320)
  moreover have "quantify_seeds [(''Picea abies'', PyInt 4, PyInt 8, PyFloat f_1e306),
                      (''Pinus cembra'', PyInt 0, PyInt 8, PyInt 100)] =
      ([], Some OverflowError)"
    by (simp only: quantify_seeds_def run_1e306)
  ultimately show ?thesis
    by simp
qed

text \<open>
  C10 as amended. For every table of records whose minWeight and maxWeight are strictly
  positive no division of the run has a zero divisor: the function never raises
  \<^verbatim>\<open>ZeroDivisionError\<close>. The computation is not total under that precondition:
  the run can still end with \<^verbatim>\<open>OverflowError\<close> or \<^verbatim>\<open>ValueError\<close> from
  \<^verbatim>\<open>float\<close> and \<^verbatim>\<open>math.floor\<close>, and with nothing else. The divisions carry no
  guard: a run that raises \<^verbatim>\<open>ZeroDivisionError\<close> has a record with a zero minWeight
  or maxWeight, a record with a zero minWeight raises it as soon as its three numbers
  are converted, and a record with a zero maxWeight raises it once its maxCount is
  computed.
\<close>

theorem quantify_seeds_no_zero_division:
  "(list_all positive_divisors tree_dict \<longrightarrow>
      snd (quantify_seeds tree_dict) \<in> {None, Some OverflowError, Some ValueError})
   \<and> (snd (quantify_seeds tree_dict) = Some ZeroDivisionError \<longrightarrow>
        (\<exists>rec \<in> set tree_dict. zero_divisor rec))
   \<and> (py_float x1 = Inr (Finite 0) \<and> py_float x2 = Inr w2 \<and> py_float x3 = Inr a \<longrightarrow>
        quantify_seeds ((name, x1, x2, x3) # rest) = ([], Some ZeroDivisionError))
   \<and> (py_float y1 = Inr w1 \<and> py_float y2 = Inr (Finite 0) \<and> py_float y3 = Inr b \<and>
      spec_count b w1 = Inr c \<longrightarrow>
        quantify_seeds ((name, y1, y2, y3) # rest) = ([], Some ZeroDivisionError))"
proof -
  have run: "quantify_seeds tree_dict = spec_estimates tree_dict"
    by (rule quantify_seeds_estimates)
  have zero: "\<exists>rec \<in> set tree_dict. zero_divisor rec"
    if "snd (spec_estimates tree_dict) = Some ZeroDivisionError"
    using that by (rule spec_estimates_zero_division)
  have kinds: "snd (spec_estimates tree_dict) \<in> {None, Some OverflowError, Some ValueError}"
    if pos: "list_all positive_divisors tree_dict"
  proof (cases "snd (spec_estimates tree_dict)")
    case None
    then show ?thesis by simp
  next
    case (Some e)
    have "e \<noteq> ZeroDivisionError"
    proof
      assume "e = ZeroDivisionError"
      with Some zero obtain rec where rec: "rec \<in> set tree_dict" and z: "zero_divisor rec"
        by auto
      from pos rec have "positive_divisors rec"
        by (simp add: list_all_iff)
      from positive_divisors_not_zero [OF this] z show False ..
    qed
    with spec_estimates_error_kinds [OF Some] Some show ?thesis
      by auto
  qed
  have first: "quantify_seeds ((name, x1, x2, x3) # rest) = ([], Some ZeroDivisionError)"
    if "py_float x1 = Inr (Finite 0) \<and> py_float x2 = Inr w2 \<and> py_float x3 = Inr a"
    using that by (simp add: quantify_seeds_def fl_div_def)
  have second: "quantify_seeds ((name, y1, y2, y3) # rest) = ([], Some ZeroDivisionError)"
    if "py_float y1 = Inr w1 \<and> py_float y2 = Inr (Finite 0) \<and> py_float y3 = Inr b \<and>
      spec_count b w1 = Inr c"
    using that by (auto simp: quantify_seeds_def fl_div_def spec_count_def split: sum.splits)
  from kinds zero first second show ?thesis
    unfolding run by blast
qed

theorem quantify_seeds_no_zero_division_witness:
  "list_all positive_divisors tree_dictionary
   \<and> snd (quantify_seeds tree_dictionary) \<in> {None, Some OverflowError, Some ValueError}
   \<and> quantify_seeds [(''Picea abies'', PyInt 0, PyInt 8, PyInt 100)] =
       ([], Some ZeroDivisionError)
   \<and> zero_divisor (''Picea abies'', PyInt 0, PyInt 8, PyInt 100)
   \<and> quantify_seeds [(''Picea abies'', PyInt 4, PyInt 0, PyInt 100)] =
       ([], Some ZeroDivisionError)"
proof -
  have h: "list_all positive_divisors tree_dictionary"
    by (simp add: tree_dictionary_def positive_divisors_def float_pos_def round64_numeral)
  have conv: "py_float (PyInt 0) = Inr (Finite 0)" "py_float (PyInt 4) = Inr (Finite 4)"
    "py_float (PyInt 8) = Inr (Finite 8)" "py_float (PyInt 100) = Inr (Finite 100)"
    by (simp_all add: round64_numeral round64_zero)
  have count: "spec_count (Finite 100) (Finite 4) = Inr 25000"
    by (simp add: spec_count_def round64_examples)
  have z: "zero_divisor (''Picea abies'', PyInt 0, PyInt 8, PyInt 100)"
    by (simp add: zero_divisor_def float_zero_def round64_zero)
  from quantify_seeds_no_zero_division
    [of tree_dictionary "PyInt 0" "PyInt 8" "Finite 8" "PyInt 100" "Finite 100"
      "''Picea abies''" "[]" "PyInt 4" "Finite 4" "PyInt 0" "PyInt 100" "Finite 100" 25000]
    h conv count z
  show ?thesis
    by simp
qed

section \<open>Seed counts: records outside the input invariant\<close>

text \<open>
  C6 as the specification states it: a record with a non-positive weight or with
  minWeight above maxWeight is rejected with InvalidInput before any count is computed
  or displayed. The function has no such check. With the bounds reversed
  (minWeight = 8, maxWeight = 4) it reports minCount = 25000 above maxCount = 12500;
  with a negative minWeight it reports a negative maxCount; with a zero
  availableWeight it reports three zeros. None of the three runs raises anything.
\<close>

theorem quantify_seeds_accepts_invalid_record:
  "\<not> valid_record (''Picea abies'', PyInt 8, PyInt 4, PyInt 100)
   \<and> quantify_seeds [(''Picea abies'', PyInt 8, PyInt 4, PyInt 100)] =
       ([\<lparr>tree_name = ''Picea abies'', min_seed_count = 25000,
          max_seed_count = 12500, mean_seed_count = 18750\<rparr>], None)
   \<and> \<not> valid_record (''Picea abies'', PyInt (- 4), PyInt 8, PyInt 100)
   \<and> quantify_seeds [(''Picea abies'', PyInt (- 4), PyInt 8, PyInt 100)] =
       ([\<lparr>tree_name = ''Picea abies'', min_seed_count = 12500,
          max_seed_count = - 25000, mean_seed_count = - 6250\<rparr>], None)
   \<and> \<not> valid_record (''Picea abies'', PyInt 4, PyInt 8, PyInt 0)
   \<and> quantify_seeds [(''Picea abies'', PyInt 4, PyInt 8, PyInt 0)] =
       ([\<lparr>tree_name = ''Picea abies'', min_seed_count = 0,
          max_seed_count = 0, mean_seed_count = 0\<rparr>], None)"
  by (simp add: valid_record_def float_pos_def float_le_def fl_le_def run_simps)

text \<open>
  C6 as amended. The function validates nothing and has no InvalidInput. A record with
  a non-positive weight or with minWeight above maxWeight is not rejected: it goes
  through the same operations as any other record, and its counts are computed and
  printed unless one of those operations raises an exception of the interpreter, which
  is \<^verbatim>\<open>ZeroDivisionError\<close> (a zero minWeight or maxWeight), \<^verbatim>\<open>OverflowError\<close> or
  \<^verbatim>\<open>ValueError\<close> (from \<^verbatim>\<open>float\<close> and \<^verbatim>\<open>math.floor\<close>).
\<close>

theorem quantify_seeds_no_validation:
  assumes "\<not> valid_record rec"
  shows "quantify_seeds (rec # rest) =
      (case spec_estimate rec of
         Inl e \<Rightarrow> ([], Some e)
       | Inr r \<Rightarrow> (r # fst (quantify_seeds rest), snd (quantify_seeds rest)))
    \<and> (\<forall>e. spec_estimate rec = Inl e \<longrightarrow>
          e = ZeroDivisionError \<and> zero_divisor rec \<or> e = OverflowError \<or> e = ValueError)"
proof -
  have "quantify_seeds (rec # rest) =
      (case spec_estimate rec of
         Inl e \<Rightarrow> ([], Some e)
       | Inr r \<Rightarrow> (r # fst (quantify_seeds rest), snd (quantify_seeds rest)))"
    by (simp add: quantify_seeds_estimates split: sum.splits prod.splits)
  moreover have "\<forall>e. spec_estimate rec = Inl e \<longrightarrow>
      e = ZeroDivisionError \<and> zero_divisor rec \<or> e = OverflowError \<or> e = ValueError"
    using spec_estimate_error by blast
  ultimately show ?thesis ..
qed

theorem quantify_seeds_no_validation_witness:
  "\<not> valid_record (''Picea abies'', PyInt 8, PyInt 4, PyInt 100)
   \<and> spec_estimate (''Picea abies'', PyInt 8, PyInt 4, PyInt 100) =
       Inr \<lparr>tree_name = ''Picea abies'', min_seed_count = 25000,
            max_seed_count = 12500, mean_seed_count = 18750\<rparr>
   \<and> quantify_seeds [(''Picea abies'', PyInt 8, PyInt 4, PyInt 100)] =
       ([\<lparr>tree_name = ''Picea abies'', min_seed_count = 25000,
          max_seed_count = 12500, mean_seed_count = 18750\<rparr>], None)"
proof -
  have h: "\<not> valid_record (''Picea abies'', PyInt 8, PyInt 4, PyInt 100)"
    by (simp add: valid_record_def float_pos_def float_le_def fl_le_def round64_numeral)
  have est: "spec_estimate (''Picea abies'', PyInt 8, PyInt 4, PyInt 100) =
       Inr \<lparr>tree_name = ''Picea abies'', min_seed_count = 25000,
            max_seed_count = 12500, mean_seed_count = 18750\<rparr>"
    by (simp add: spec_estimate_def spec_count_def spec_mean_def int_truediv_def
        round64_examples)
  have nil: "quantify_seeds [] = ([], None)"
    by (simp add: quantify_seeds_def)
  from quantify_seeds_no_validation [OF h, of "[]"] h est nil show ?thesis
    by simp
qed

section \<open>Seed counts: the example of the script\<close>

text \<open>
  C7. For the record name = "Picea abies", minWeight = 4, maxWeight = 8,
  availableWeight = 100, the first record of the script's own table, the function
  reports maxCount = 25000, minCount = 12500 and meanCount = 18750, and it raises
  nothing. The statement runs the function on the record alone and on the whole table of
  the script, whose first printed report is that one.
\<close>

theorem picea_abies_example:
  "quantify_seeds [(''Picea abies'', PyInt 4, PyInt 8, PyInt 100)] =
     ([\<lparr>tree_name = ''Picea abies'', min_seed_count = 12500,
        max_seed_count = 25000, mean_seed_count = 18750\<rparr>], None)
   \<and> quantify_seeds tree_dictionary =
     ([\<lparr>tree_name = ''Picea abies'', min_seed_count = 12500,
        max_seed_count = 25000, mean_seed_count = 18750\<rparr>,
       \<lparr>tree_name = ''Pinus cembra'', min_seed_count = 6666,
        max_seed_count = 13333, mean_seed_count = 9999\<rparr>,
       \<lparr>tree_name = ''Acer pseudoplatanus'', min_seed_count = 12000,
        max_seed_count = 30000, mean_seed_count = 21000\<rparr>,
       \<lparr>tree_name = ''Sorbus aucuparia'', min_seed_count = 40000,
        max_seed_count = 57142, mean_seed_count = 48571\<rparr>], None)"
  by (simp add: tree_dictionary_def run_simps)

section \<open>The shuffle permutes its list\<close>

lemma shuffle_from_mset:
  "shuffle_from rb k xs g = Inr (ys, g') \<Longrightarrow> mset ys = mset xs"
proof (induction k arbitrary: xs g)
  case 0
  then show ?case by simp
next
  case (Suc k)
  obtain j g1 where draw: "rb g (Suc k + 1) = (j, g1)"
    by (cases "rb g (Suc k + 1)") auto
  from Suc.prems draw have inr: "j < length xs" "Suc k < length xs"
    and rest: "shuffle_from rb k (xs[Suc k := xs ! j, j := xs ! Suc k]) g1 = Inr (ys, g')"
    by (auto split: if_splits)
  from Suc.IH [OF rest] have "mset ys = mset (xs[Suc k := xs ! j, j := xs ! Suc k])" .
  also have "\<dots> = mset xs"
    using inr by (simp add: mset_swap)
  finally show ?case .
qed

lemma shuffle_from_runs:
  assumes "randbelow_ok rb" and "k < length xs"
  shows "\<exists>ys g'. shuffle_from rb k xs g = Inr (ys, g')"
  using assms(2)
proof (induction k arbitrary: xs g)
  case 0
  then show ?case by simp
next
  case (Suc k)
  obtain j g1 where draw: "rb g (Suc k + 1) = (j, g1)"
    by (cases "rb g (Suc k + 1)") auto
  from assms(1) have "fst (rb g (Suc k + 1)) < Suc k + 1"
    unfolding randbelow_ok_def by simp
  with draw Suc.prems have j: "j < length xs"
    by simp
  have "k < length (xs[Suc k := xs ! j, j := xs ! Suc k])"
    using Suc.prems by simp
  from Suc.IH [OF this] obtain ys g' where
    "shuffle_from rb k (xs[Suc k := xs ! j, j := xs ! Suc k]) g1 = Inr (ys, g')"
    by blast
  with draw j Suc.prems show ?case
    by simp
qed

lemma shuffle_mset: "shuffle rb xs g = Inr (ys, g') \<Longrightarrow> mset ys = mset xs"
  unfolding shuffle_def by (rule shuffle_from_mset)

lemma shuffle_runs:
  assumes "randbelow_ok rb"
  shows "\<exists>ys g'. shuffle rb xs g = Inr (ys, g')"
proof (cases xs)
  case Nil
  then show ?thesis by (simp add: shuffle_def)
next
  case (Cons x rest)
  then have "length xs - 1 < length xs" by simp
  from shuffle_from_runs [OF assms this] show ?thesis
    by (simp add: shuffle_def)
qed

lemma randbelow_ok_lcg: "randbelow_ok lcg"
  by (simp add: randbelow_ok_def lcg_def Let_def nat_less_iff)

section \<open>Positions of a grid\<close>

lemma concat_filtered_rows:
  "concat (map (\<lambda>r. concat (map (\<lambda>c. if P (r, c) then [h (r, c)] else []) cs)) rs) =
     map h (filter P (List.product rs cs))"
proof (induction rs)
  case Nil
  show ?case by simp
next
  case (Cons r rs)
  have "concat (map (\<lambda>c. if P (r, c) then [h (r, c)] else []) cs) =
      map h (filter P (map (Pair r) cs))"
    by (induction cs) simp_all
  with Cons show ?case by simp
qed

lemma concat_rows:
  "concat (map (\<lambda>r. map (\<lambda>c. h (r, c)) cs) rs) = map h (List.product rs cs)"
  by (induction rs) (simp_all add: comp_def)

lemma available_filter:
  "available (rows, cols) pos =
     filter (\<lambda>p. (int (fst p), int (snd p)) \<noteq> pos) (List.product [0..<rows] [0..<cols])"
  using concat_filtered_rows
    [of "\<lambda>p. (int (fst p), int (snd p)) \<noteq> pos" "\<lambda>p. p" "[0..<cols]" "[0..<rows]"]
  by (simp add: available_def)

lemma distinct_available: "distinct (available (rows, cols) pos)"
  by (simp add: available_filter distinct_product)

lemma set_available:
  "set (available (rows, cols) pos) =
     {p. fst p < rows \<and> snd p < cols \<and> (int (fst p), int (snd p)) \<noteq> pos}"
  by (auto simp: available_filter)

lemma mset_grid_positions:
  assumes "pr < rows" and "pc < cols"
  shows "mset (List.product [0..<rows] [0..<cols]) =
     add_mset (pr, pc) (mset (available (rows, cols) (int pr, int pc)))"
proof -
  let ?all = "List.product [0..<rows] [0..<cols]"
  let ?P = "\<lambda>p. (int (fst p), int (snd p)) \<noteq> (int pr, int pc)"
  have eq: "(\<not> ?P p) = (p = (pr, pc))" for p :: "nat \<times> nat"
    by (cases p) auto
  have "distinct ?all"
    by (simp add: distinct_product)
  moreover have "(pr, pc) \<in> set ?all"
    using assms by simp
  ultimately have "count (mset ?all) (pr, pc) = 1"
    by (simp add: distinct_count_atmost_1)
  then have "filter_mset (\<lambda>p. p = (pr, pc)) (mset ?all) = {#(pr, pc)#}"
    by (simp add: filter_eq_replicate_mset)
  then have "filter_mset (\<lambda>p. \<not> ?P p) (mset ?all) = {#(pr, pc)#}"
    by (simp only: eq)
  moreover have "mset ?all = filter_mset ?P (mset ?all) + filter_mset (\<lambda>p. \<not> ?P p) (mset ?all)"
    by (rule multiset_partition)
  ultimately show ?thesis
    by (simp add: available_filter)
qed

lemma length_available:
  assumes "pr < rows" and "pc < cols"
  shows "length (available (rows, cols) (int pr, int pc)) = rows * cols - 1"
proof -
  have "size (mset (List.product [0..<rows] [0..<cols])) =
      size (add_mset (pr, pc) (mset (available (rows, cols) (int pr, int pc))))"
    by (simp only: mset_grid_positions [OF assms])
  then show ?thesis by simp
qed

section \<open>Cells of a plate\<close>

lemma plate_shape_empty: "plate_shape (rows, cols) (empty_plate (rows, cols))"
  by (simp add: plate_shape_def empty_plate_def list_all_iff)

lemma cell_empty_plate:
  "r < rows \<Longrightarrow> c < cols \<Longrightarrow> cell (empty_plate (rows, cols)) (r, c) = []"
  by (simp add: cell_def empty_plate_def)

lemma plate_shape_row:
  "plate_shape (rows, cols) plate \<Longrightarrow> r < rows \<Longrightarrow> length (plate ! r) = cols"
  by (simp add: plate_shape_def list_all_length)

lemma setitem2_in_range:
  assumes "plate_shape (rows, cols) plate" and "r < rows" and "c < cols"
  shows "setitem2 plate (int r, int c) v = Inr (plate[r := (plate ! r)[c := v]])"
proof -
  from assms have "length plate = rows" and "length (plate ! r) = cols"
    by (simp_all add: plate_shape_def list_all_length)
  with assms(2,3) show ?thesis
    by (simp add: setitem2_def py_index_def)
qed

lemma plate_shape_update:
  assumes "plate_shape (rows, cols) plate" and "r < rows"
  shows "plate_shape (rows, cols) (plate[r := (plate ! r)[c := v]])"
proof -
  from assms have len: "length plate = rows" and row: "length (plate ! r) = cols"
    by (simp_all add: plate_shape_def list_all_length)
  have "length ((plate[r := (plate ! r)[c := v]]) ! i) = cols" if "i < rows" for i
    using that assms(1) len by (cases "i = r") (simp_all add: plate_shape_def list_all_length)
  with len show ?thesis
    by (simp add: plate_shape_def list_all_length)
qed

lemma cell_update:
  assumes "r < length plate" and "c < length (plate ! r)"
  shows "cell (plate[r := (plate ! r)[c := v]]) p = (if p = (r, c) then v else cell plate p)"
proof (cases p)
  case (Pair r' c')
  show ?thesis
  proof (cases "r' = r")
    case True
    with assms Pair show ?thesis
      by (cases "c' = c") (simp_all add: cell_def)
  next
    case False
    with Pair show ?thesis
      by (simp add: cell_def)
  qed
qed

lemma concat_plate:
  assumes "plate_shape (rows, cols) plate"
  shows "concat plate = map (cell plate) (List.product [0..<rows] [0..<cols])"
proof -
  from assms have len: "length plate = rows"
    by (simp add: plate_shape_def)
  have "plate = map (\<lambda>r. plate ! r) [0..<rows]"
    by (simp add: len [symmetric] map_nth)
  also have "\<dots> = map (\<lambda>r. map (\<lambda>c. cell plate (r, c)) [0..<cols]) [0..<rows]"
  proof (rule map_cong [OF refl])
    fix r assume "r \<in> set [0..<rows]"
    then have "length (plate ! r) = cols"
      using assms by (simp add: plate_shape_row)
    then have "map (\<lambda>c. plate ! r ! c) [0..<cols] = plate ! r"
      using map_nth [of "plate ! r"] by simp
    then show "plate ! r = map (\<lambda>c. cell plate (r, c)) [0..<cols]"
      by (simp add: cell_def)
  qed
  finally have "concat plate =
      concat (map (\<lambda>r. map (\<lambda>c. cell plate (r, c)) [0..<cols]) [0..<rows])"
    by simp
  then show ?thesis
    by (simp only: concat_rows)
qed

lemma other_cells_available:
  assumes "plate_shape (rows, cols) plate"
  shows "other_cells plate pos = map (cell plate) (available (rows, cols) pos)"
proof -
  from assms have len: "length plate = rows"
    by (simp add: plate_shape_def)
  have "other_cells plate pos =
      concat (map (\<lambda>r. concat (map (\<lambda>c. if (int r, int c) \<noteq> pos then [cell plate (r, c)] else [])
                                    [0..<cols]))
                  [0..<rows])"
    unfolding other_cells_def len
  proof (rule arg_cong [where f = concat], rule map_cong [OF refl])
    fix r assume "r \<in> set [0..<rows]"
    then have "length (plate ! r) = cols"
      using assms by (simp add: plate_shape_row)
    then show "concat (map (\<lambda>c. if (int r, int c) \<noteq> pos then [plate ! r ! c] else [])
          [0..<length (plate ! r)]) =
        concat (map (\<lambda>c. if (int r, int c) \<noteq> pos then [cell plate (r, c)] else []) [0..<cols])"
      by (simp add: cell_def cong: if_cong)
  qed
  also have "\<dots> = map (cell plate)
      (filter (\<lambda>p. (int (fst p), int (snd p)) \<noteq> pos) (List.product [0..<rows] [0..<cols]))"
    using concat_filtered_rows
      [of "\<lambda>p. (int (fst p), int (snd p)) \<noteq> pos" "cell plate" "[0..<cols]" "[0..<rows]"]
    by simp
  finally show ?thesis
    by (simp add: available_filter)
qed

section \<open>The assignment loop\<close>

lemma assign_result:
  assumes "plate_shape (rows, cols) plate"
    and "\<forall>z \<in> set zs. fst (snd z) < rows \<and> snd (snd z) < cols"
  shows "\<exists>plate'. assign zs plate = Inr plate' \<and> plate_shape (rows, cols) plate'
    \<and> (\<forall>p. p \<notin> snd ` set zs \<longrightarrow> cell plate' p = cell plate p)
    \<and> (distinct (map snd zs) \<longrightarrow> (\<forall>z \<in> set zs. cell plate' (snd z) = fst z))"
  using assms
proof (induction zs arbitrary: plate)
  case Nil
  then show ?case by simp
next
  case (Cons z zs)
  obtain obj r c where z: "z = (obj, (r, c))"
    by (cases z) auto
  from Cons.prems(2) z have rc: "r < rows" "c < cols"
    by simp_all
  let ?plate1 = "plate[r := (plate ! r)[c := obj]]"
  have step: "setitem2 plate (int r, int c) obj = Inr ?plate1"
    using Cons.prems(1) rc by (rule setitem2_in_range)
  have shape1: "plate_shape (rows, cols) ?plate1"
    using Cons.prems(1) rc(1) by (rule plate_shape_update)
  from Cons.prems(1) rc have len: "r < length plate" "c < length (plate ! r)"
    by (simp_all add: plate_shape_def list_all_length)
  have cell1: "cell ?plate1 p = (if p = (r, c) then obj else cell plate p)" for p
    using len by (rule cell_update)
  from Cons.prems(2) have rest: "\<forall>z \<in> set zs. fst (snd z) < rows \<and> snd (snd z) < cols"
    by simp
  from Cons.IH [OF shape1 rest] obtain plate' where
    run: "assign zs ?plate1 = Inr plate'" and
    shape: "plate_shape (rows, cols) plate'" and
    frame: "\<forall>p. p \<notin> snd ` set zs \<longrightarrow> cell plate' p = cell ?plate1 p" and
    hit: "distinct (map snd zs) \<longrightarrow> (\<forall>z \<in> set zs. cell plate' (snd z) = fst z)"
    by blast
  have "assign (z # zs) plate = Inr plate'"
    by (simp add: z step run)
  moreover have "\<forall>p. p \<notin> snd ` set (z # zs) \<longrightarrow> cell plate' p = cell plate p"
    using frame cell1 by (auto simp: z)
  moreover have "distinct (map snd (z # zs)) \<longrightarrow>
      (\<forall>y \<in> set (z # zs). cell plate' (snd y) = fst y)"
  proof (intro impI ballI)
    fix y assume d: "distinct (map snd (z # zs))" and y: "y \<in> set (z # zs)"
    show "cell plate' (snd y) = fst y"
    proof (cases "y = z")
      case True
      from d have "(r, c) \<notin> snd ` set zs"
        by (simp add: z)
      with frame have "cell plate' (r, c) = cell ?plate1 (r, c)"
        by blast
      with cell1 True show ?thesis
        by (simp add: z)
    next
      case False
      with y have "y \<in> set zs" by simp
      with hit d show ?thesis by simp
    qed
  qed
  ultimately show ?case
    using shape by blast
qed

text \<open>
  What the loop leaves at the shuffled positions: the labels, in their order, as far as
  they go, and the former content where the labels have run out.
\<close>

lemma assign_zip_cells:
  assumes "plate_shape (rows, cols) plate"
    and "\<forall>p \<in> set ps. fst p < rows \<and> snd p < cols"
    and "distinct ps"
  shows "\<exists>plate'. assign (zip objs ps) plate = Inr plate' \<and> plate_shape (rows, cols) plate'
    \<and> map (cell plate') ps =
        take (length ps) objs @ map (cell plate) (drop (length objs) ps)
    \<and> (\<forall>p. p \<notin> set ps \<longrightarrow> cell plate' p = cell plate p)"
proof -
  let ?zs = "zip objs ps"
  let ?n = "min (length objs) (length ps)"
  have snd_zs: "map snd ?zs = take (length objs) ps"
    by (simp add: map_snd_zip_take min_def)
  have in_range: "\<forall>z \<in> set ?zs. fst (snd z) < rows \<and> snd (snd z) < cols"
  proof
    fix z assume "z \<in> set ?zs"
    then have "(fst z, snd z) \<in> set (zip objs ps)"
      by simp
    then have "snd z \<in> set ps"
      by (rule set_zip_rightD)
    with assms(2) show "fst (snd z) < rows \<and> snd (snd z) < cols"
      by blast
  qed
  from assign_result [OF assms(1) in_range] obtain plate' where
    run: "assign ?zs plate = Inr plate'" and
    shape: "plate_shape (rows, cols) plate'" and
    frame: "\<forall>p. p \<notin> snd ` set ?zs \<longrightarrow> cell plate' p = cell plate p" and
    hit: "distinct (map snd ?zs) \<longrightarrow> (\<forall>z \<in> set ?zs. cell plate' (snd z) = fst z)"
    by blast
  have set_snd: "snd ` set ?zs = set (take (length objs) ps)"
    using snd_zs by (metis set_map)
  have frame': "cell plate' p = cell plate p" if "p \<notin> set (take (length objs) ps)" for p
    using that frame unfolding set_snd by blast
  have "distinct (map snd ?zs)"
    using assms(3) by (simp add: snd_zs)
  with hit have hit': "\<forall>z \<in> set ?zs. cell plate' (snd z) = fst z"
    by blast
  have cells: "map (cell plate') ps =
      take (length ps) objs @ map (cell plate) (drop (length objs) ps)"
  proof (rule nth_equalityI)
    show "length (map (cell plate') ps) =
        length (take (length ps) objs @ map (cell plate) (drop (length objs) ps))"
      by simp
  next
    fix i assume "i < length (map (cell plate') ps)"
    then have i: "i < length ps" by simp
    show "map (cell plate') ps ! i =
        (take (length ps) objs @ map (cell plate) (drop (length objs) ps)) ! i"
    proof (cases "i < length objs")
      case True
      with i have "(objs ! i, ps ! i) \<in> set ?zs"
        by (auto simp: set_zip)
      with hit' have "cell plate' (ps ! i) = objs ! i"
        by force
      with i True show ?thesis
        by (simp add: nth_append)
    next
      case False
      have "ps ! i \<notin> set (take (length objs) ps)"
      proof
        assume "ps ! i \<in> set (take (length objs) ps)"
        then obtain j where j: "j < length (take (length objs) ps)"
          and eq: "take (length objs) ps ! j = ps ! i"
          by (auto simp: in_set_conv_nth)
        from j have "j < length objs" "j < length ps" by simp_all
        with eq have "ps ! j = ps ! i" by simp
        with assms(3) \<open>j < length ps\<close> i have "j = i"
          by (simp add: nth_eq_iff_index_eq)
        with \<open>j < length objs\<close> False show False by simp
      qed
      then have "cell plate' (ps ! i) = cell plate (ps ! i)"
        by (rule frame')
      with i False show ?thesis
        by (simp add: nth_append min_def)
    qed
  qed
  have "\<forall>p. p \<notin> set ps \<longrightarrow> cell plate' p = cell plate p"
    using frame' by (blast dest: in_set_takeD)
  with run shape cells show ?thesis
    by blast
qed

section \<open>The plate that generate\_plate returns\<close>

lemma generate_plate_cells:
  assumes "randbelow_ok rb" and "pr < rows" and "pc < cols"
  shows "\<exists>plate ps g'.
      generate_plate rb objs (rows, cols) (int pr, int pc) g = Inr (plate, g')
    \<and> shuffle rb (available (rows, cols) (int pr, int pc)) g = Inr (ps, g')
    \<and> mset ps = mset (available (rows, cols) (int pr, int pc))
    \<and> plate_shape (rows, cols) plate
    \<and> cell plate (pr, pc) = ''L''
    \<and> map (cell plate) ps =
        take (rows * cols - 1) objs @ replicate (rows * cols - 1 - length objs) []"
proof -
  let ?pos = "(int pr, int pc)"
  let ?empty = "empty_plate (rows, cols)"
  let ?plate0 = "?empty[pr := (?empty ! pr)[pc := ''L'']]"
  have shape_empty: "plate_shape (rows, cols) ?empty"
    by (rule plate_shape_empty)
  have pin: "setitem2 ?empty ?pos ''L'' = Inr ?plate0"
    using shape_empty assms(2,3) by (rule setitem2_in_range)
  have shape0: "plate_shape (rows, cols) ?plate0"
    using shape_empty assms(2) by (rule plate_shape_update)
  have len: "pr < length ?empty" "pc < length (?empty ! pr)"
    using assms(2,3) by (simp_all add: empty_plate_def)
  have cell0: "cell ?plate0 p = (if p = (pr, pc) then ''L'' else cell ?empty p)" for p
    using len by (rule cell_update)
  from shuffle_runs [OF assms(1)] obtain ps g' where
    sh: "shuffle rb (available (rows, cols) ?pos) g = Inr (ps, g')"
    by blast
  then have perm: "mset ps = mset (available (rows, cols) ?pos)"
    by (rule shuffle_mset)
  then have "distinct ps = distinct (available (rows, cols) ?pos)"
    by (rule mset_eq_imp_distinct_iff)
  then have dist: "distinct ps"
    by (simp add: distinct_available)
  from perm have set_ps: "set ps = set (available (rows, cols) ?pos)"
    by (rule mset_eq_setD)
  from perm have "length ps = length (available (rows, cols) ?pos)"
    by (rule mset_eq_length)
  then have length_ps: "length ps = rows * cols - 1"
    by (simp add: length_available [OF assms(2,3)])
  have ps_range: "\<forall>p \<in> set ps. fst p < rows \<and> snd p < cols"
    by (simp add: set_ps set_available)
  have ps_free: "p \<noteq> (pr, pc)" if "p \<in> set ps" for p
    using that by (auto simp: set_ps set_available)
  from assign_zip_cells [OF shape0 ps_range dist, of objs] obtain plate' where
    run: "assign (zip objs ps) ?plate0 = Inr plate'" and
    shape: "plate_shape (rows, cols) plate'" and
    cells: "map (cell plate') ps =
      take (length ps) objs @ map (cell ?plate0) (drop (length objs) ps)" and
    frame: "\<forall>p. p \<notin> set ps \<longrightarrow> cell plate' p = cell ?plate0 p"
    by blast
  have "cell ?plate0 p = []" if "p \<in> set ps" for p
  proof -
    from that ps_range have "fst p < rows" "snd p < cols"
      by auto
    then have "cell ?empty p = []"
      using cell_empty_plate [of "fst p" rows "snd p" cols] by simp
    with ps_free [OF that] show ?thesis
      by (simp add: cell0)
  qed
  then have "\<forall>p \<in> set (drop (length objs) ps). cell ?plate0 p = []"
    by (blast dest: in_set_dropD)
  then have "\<forall>y \<in> set (map (cell ?plate0) (drop (length objs) ps)). y = []"
    by simp
  then have "replicate (length (map (cell ?plate0) (drop (length objs) ps))) [] =
      map (cell ?plate0) (drop (length objs) ps)"
    by (rule replicate_length_same)
  then have "map (cell ?plate0) (drop (length objs) ps) =
      replicate (length ps - length objs) []"
    by simp
  with cells have cells': "map (cell plate') ps =
      take (rows * cols - 1) objs @ replicate (rows * cols - 1 - length objs) []"
    by (simp add: length_ps)
  have "(pr, pc) \<notin> set ps"
    using ps_free by blast
  with frame have pinned: "cell plate' (pr, pc) = ''L''"
    by (simp add: cell0)
  have "generate_plate rb objs (rows, cols) ?pos g = Inr (plate', g')"
    by (simp add: generate_plate_def pin sh run)
  with sh perm shape pinned cells' show ?thesis
    by blast
qed

lemma generate_plate_labels:
  assumes "randbelow_ok rb" and "pr < rows" and "pc < cols"
  shows "\<exists>plate g'.
      generate_plate rb objs (rows, cols) (int pr, int pc) g = Inr (plate, g')
    \<and> plate_shape (rows, cols) plate
    \<and> plate ! pr ! pc = ''L''
    \<and> mset (other_cells plate (int pr, int pc)) =
        mset (take (rows * cols - 1) objs) + replicate_mset (rows * cols - 1 - length objs) []
    \<and> mset (concat plate) =
        add_mset ''L''
          (mset (take (rows * cols - 1) objs) +
           replicate_mset (rows * cols - 1 - length objs) [])"
proof -
  let ?pos = "(int pr, int pc)"
  from generate_plate_cells [OF assms, of objs g] obtain plate ps g' where
    gen: "generate_plate rb objs (rows, cols) ?pos g = Inr (plate, g')" and
    perm: "mset ps = mset (available (rows, cols) ?pos)" and
    shape: "plate_shape (rows, cols) plate" and
    pinned: "cell plate (pr, pc) = ''L''" and
    cells: "map (cell plate) ps =
      take (rows * cols - 1) objs @ replicate (rows * cols - 1 - length objs) []"
    by blast
  have "mset (other_cells plate ?pos) = image_mset (cell plate) (mset (available (rows, cols) ?pos))"
    by (simp add: other_cells_available [OF shape])
  also have "\<dots> = mset (map (cell plate) ps)"
    by (simp add: perm [symmetric])
  finally have others: "mset (other_cells plate ?pos) =
      mset (take (rows * cols - 1) objs) + replicate_mset (rows * cols - 1 - length objs) []"
    by (simp add: cells)
  have "mset (concat plate) =
      image_mset (cell plate) (mset (List.product [0..<rows] [0..<cols]))"
    by (simp add: concat_plate [OF shape])
  also have "\<dots> = add_mset (cell plate (pr, pc))
      (image_mset (cell plate) (mset (available (rows, cols) ?pos)))"
    by (simp add: mset_grid_positions [OF assms(2,3)])
  also have "image_mset (cell plate) (mset (available (rows, cols) ?pos)) =
      mset (map (cell plate) ps)"
    by (simp add: perm [symmetric])
  finally have whole: "mset (concat plate) =
      add_mset ''L''
        (mset (take (rows * cols - 1) objs) +
         replicate_mset (rows * cols - 1 - length objs) [])"
    by (simp add: cells pinned)
  from pinned have "plate ! pr ! pc = ''L''"
    by (simp add: cell_def)
  with gen shape others whole show ?thesis
    by blast
qed

lemma pinned_in_boundsE:
  assumes "pinned_in_bounds sz pos"
  obtains rows cols pr pc where "sz = (rows, cols)" and "pos = (int pr, int pc)"
    and "pr < rows" and "pc < cols"
proof -
  obtain rows cols where sz: "sz = (rows, cols)"
    by (cases sz) auto
  obtain a b where pos: "pos = (a, b)"
    by (cases pos) auto
  from assms have "0 \<le> a" "a < int rows" "0 \<le> b" "b < int cols"
    by (simp_all add: pinned_in_bounds_def sz pos)
  then have "pos = (int (nat a), int (nat b))" "nat a < rows" "nat b < cols"
    by (simp_all add: pos)
  with sz that show ?thesis
    by blast
qed

section \<open>Trays: every cell filled, every label placed once\<close>

text \<open>
  C1. For every valid layout (the pinned position within the grid, one fill label for
  every other cell) and every random source that keeps the contract of randbelow,
  generate\_plate returns a plate of the given size with the pinned label L at the
  pinned position, and the labels of the other cells are, as a multiset, exactly the
  fill labels: no label is dropped or used twice, and no cell keeps the empty string of
  the empty plate unless it is a fill label. The whole plate holds L and the fill labels,
  so L stands exactly once on it when no fill label is L, as in both scripts.
\<close>

theorem generate_plate_fills_tray:
  assumes "randbelow_ok rb" and "valid_layout sz pos objs"
  shows "\<exists>plate g'. generate_plate rb objs sz pos g = Inr (plate, g')
    \<and> plate_shape sz plate
    \<and> plate ! nat (fst pos) ! nat (snd pos) = ''L''
    \<and> mset (other_cells plate pos) = mset objs
    \<and> mset (concat plate) = add_mset ''L'' (mset objs)
    \<and> (''L'' \<notin> set objs \<longrightarrow> count (mset (concat plate)) ''L'' = 1)
    \<and> ([] \<notin> set objs \<longrightarrow> [] \<notin> set (concat plate))"
proof -
  from assms(2) have bounds: "pinned_in_bounds sz pos"
    and len: "length objs = fst sz * snd sz - 1"
    by (simp_all add: valid_layout_def)
  from bounds obtain rows cols pr pc where
    sz: "sz = (rows, cols)" and pos: "pos = (int pr, int pc)" and
    pr: "pr < rows" and pc: "pc < cols"
    by (rule pinned_in_boundsE)
  from len have len': "length objs = rows * cols - 1"
    by (simp add: sz)
  from generate_plate_labels [OF assms(1) pr pc, of objs g] obtain plate g' where
    gen: "generate_plate rb objs (rows, cols) (int pr, int pc) g = Inr (plate, g')" and
    shape: "plate_shape (rows, cols) plate" and
    pinned: "plate ! pr ! pc = ''L''" and
    others: "mset (other_cells plate (int pr, int pc)) =
      mset (take (rows * cols - 1) objs) + replicate_mset (rows * cols - 1 - length objs) []" and
    whole: "mset (concat plate) =
      add_mset ''L''
        (mset (take (rows * cols - 1) objs) +
         replicate_mset (rows * cols - 1 - length objs) [])"
    by blast
  from others have others': "mset (other_cells plate pos) = mset objs"
    by (simp add: len' pos)
  from whole have whole': "mset (concat plate) = add_mset ''L'' (mset objs)"
    by (simp add: len')
  have once: "count (mset (concat plate)) ''L'' = 1" if "''L'' \<notin> set objs"
    using that by (simp add: whole' count_eq_zero_iff)
  have "set (concat plate) = insert ''L'' (set objs)"
    using arg_cong [OF whole', of set_mset] by simp
  then have filled: "[] \<notin> set (concat plate)" if "[] \<notin> set objs"
    using that by simp
  from gen shape pinned others' whole' once filled show ?thesis
    unfolding sz pos by auto
qed

theorem generate_plate_fills_tray_witness:
  "randbelow_ok lcg \<and> valid_layout plate_size position_L objects
   \<and> generate_plate lcg objects plate_size position_L 69 =
      Inr ([[''C'', ''P. cembra'', ''P. cembra'', ''P. cembra'', ''P. abies'',
             ''A. pseudoplatanus''],
            [''P. abies'', ''P. cembra'', ''P. abies'', ''P. cembra'', ''C'',
             ''S. aucuparia''],
            [''P. abies'', ''A. pseudoplatanus'', ''L'', ''S. aucuparia'',
             ''A. pseudoplatanus'', ''P. abies''],
            [''S. aucuparia'', ''A. pseudoplatanus'', ''A. pseudoplatanus'',
             ''S. aucuparia'', ''S. aucuparia'', ''C'']], 1039119255)
   \<and> mset (other_cells
        [[''C'', ''P. cembra'', ''P. cembra'', ''P. cembra'', ''P. abies'',
          ''A. pseudoplatanus''],
         [''P. abies'', ''P. cembra'', ''P. abies'', ''P. cembra'', ''C'',
          ''S. aucuparia''],
         [''P. abies'', ''A. pseudoplatanus'', ''L'', ''S. aucuparia'',
          ''A. pseudoplatanus'', ''P. abies''],
         [''S. aucuparia'', ''A. pseudoplatanus'', ''A. pseudoplatanus'',
          ''S. aucuparia'', ''S. aucuparia'', ''C'']] position_L) = mset objects"
proof -
  have valid: "valid_layout plate_size position_L objects"
    by (simp add: valid_layout_def pinned_in_bounds_def plate_size_def position_L_def
        objects_def)
  have run: "generate_plate lcg objects plate_size position_L 69 =
      Inr ([[''C'', ''P. cembra'', ''P. cembra'', ''P. cembra'', ''P. abies'',
             ''A. pseudoplatanus''],
            [''P. abies'', ''P. cembra'', ''P. abies'', ''P. cembra'', ''C'',
             ''S. aucuparia''],
            [''P. abies'', ''A. pseudoplatanus'', ''L'', ''S. aucuparia'',
             ''A. pseudoplatanus'', ''P. abies''],
            [''S. aucuparia'', ''A. pseudoplatanus'', ''A. pseudoplatanus'',
             ''S. aucuparia'', ''S. aucuparia'', ''C'']], 1039119255)"
    by code_simp
  from generate_plate_fills_tray [OF randbelow_ok_lcg valid, of 69] obtain plate g' where
    gen: "generate_plate lcg objects plate_size position_L 69 = Inr (plate, g')" and
    others: "mset (other_cells plate position_L) = mset objects"
    by blast
  from gen have plate: "plate =
      [[''C'', ''P. cembra'', ''P. cembra'', ''P. cembra'', ''P. abies'',
        ''A. pseudoplatanus''],
       [''P. abies'', ''P. cembra'', ''P. abies'', ''P. cembra'', ''C'',
        ''S. aucuparia''],
       [''P. abies'', ''A. pseudoplatanus'', ''L'', ''S. aucuparia'',
        ''A. pseudoplatanus'', ''P. abies''],
       [''S. aucuparia'', ''A. pseudoplatanus'', ''A. pseudoplatanus'',
        ''S. aucuparia'', ''S. aucuparia'', ''C'']]"
    unfolding run by simp
  from randbelow_ok_lcg valid run others [unfolded plate] show ?thesis
    by (intro conjI)
qed

section \<open>Trays: a label list of the wrong length\<close>

text \<open>
  C5 as the specification states it: with a number of fill labels other than
  rows * cols - 1 the generation fails with LayoutSizeMismatch before the grid is
  allocated. The function checks no length. With the 22 labels left when the last one
  of the script's 23 is taken away, on the script's grid of 4 by 6, it raises nothing
  and returns a plate on which one cell keeps the empty string of the empty plate.
\<close>

theorem generate_plate_short_labels_no_error:
  "length (replicate 3 ''C'' @ replicate 5 ''P. abies'' @ replicate 5 ''P. cembra''
      @ replicate 5 ''A. pseudoplatanus'' @ replicate 4 ''S. aucuparia'') = 22
   \<and> generate_plate lcg
       (replicate 3 ''C'' @ replicate 5 ''P. abies'' @ replicate 5 ''P. cembra''
          @ replicate 5 ''A. pseudoplatanus'' @ replicate 4 ''S. aucuparia'')
       (4, 6) (2, 2) 69 =
      Inr ([[''C'', ''P. cembra'', ''P. cembra'', ''P. cembra'', ''P. abies'',
             ''A. pseudoplatanus''],
            [''P. abies'', ''P. cembra'', ''P. abies'', ''P. cembra'', ''C'',
             ''S. aucuparia''],
            [''P. abies'', ''A. pseudoplatanus'', ''L'', [],
             ''A. pseudoplatanus'', ''P. abies''],
            [''S. aucuparia'', ''A. pseudoplatanus'', ''A. pseudoplatanus'',
             ''S. aucuparia'', ''S. aucuparia'', ''C'']], 1039119255)"
  by code_simp

text \<open>
  C5 as amended. The function checks no length and raises nothing for a label list of
  any length, provided the pinned position lies within the grid and the random source
  keeps the contract of randbelow. The loop pairs labels and shuffled positions as far
  as the shorter of the two goes: the cells other than the pinned one hold the first
  rows * cols - 1 labels, and with fewer labels than that the cells left over keep the
  empty string; labels beyond rows * cols - 1 are dropped.
\<close>

theorem generate_plate_any_label_count:
  assumes "randbelow_ok rb" and "pinned_in_bounds sz pos"
  shows "\<exists>plate g'. generate_plate rb objs sz pos g = Inr (plate, g')
    \<and> plate_shape sz plate
    \<and> plate ! nat (fst pos) ! nat (snd pos) = ''L''
    \<and> mset (other_cells plate pos) =
        mset (take (fst sz * snd sz - 1) objs) +
        replicate_mset (fst sz * snd sz - 1 - length objs) []"
proof -
  from assms(2) obtain rows cols pr pc where
    sz: "sz = (rows, cols)" and pos: "pos = (int pr, int pc)" and
    pr: "pr < rows" and pc: "pc < cols"
    by (rule pinned_in_boundsE)
  from generate_plate_labels [OF assms(1) pr pc, of objs g] show ?thesis
    unfolding sz pos by auto
qed

theorem generate_plate_any_label_count_witness:
  "randbelow_ok lcg \<and> pinned_in_bounds (2, 2) (0, 1)
   \<and> generate_plate lcg [''a''] (2, 2) (0, 1) 69 = Inr ([[''a'', ''L''], [[], []]], 1236251851)
   \<and> mset (other_cells [[''a'', ''L''], [[], []]] (0, 1)) = {#''a'', [], []#}
   \<and> generate_plate lcg [''a'', ''b'', ''c'', ''d'', ''e''] (2, 2) (0, 1) 69 =
       Inr ([[''a'', ''L''], [''b'', ''c'']], 1236251851)
   \<and> mset (other_cells [[''a'', ''L''], [''b'', ''c'']] (0, 1)) = {#''a'', ''b'', ''c''#}"
proof -
  have bounds: "pinned_in_bounds (2, 2) (0, 1)"
    by (simp add: pinned_in_bounds_def)
  have run1: "generate_plate lcg [''a''] (2, 2) (0, 1) 69 =
      Inr ([[''a'', ''L''], [[], []]], 1236251851)"
    by code_simp
  have run2: "generate_plate lcg [''a'', ''b'', ''c'', ''d'', ''e''] (2, 2) (0, 1) 69 =
      Inr ([[''a'', ''L''], [''b'', ''c'']], 1236251851)"
    by code_simp
  from generate_plate_any_label_count [OF randbelow_ok_lcg bounds, of "[''a'']" 69]
  obtain plate1 g1 where
    gen1: "generate_plate lcg [''a''] (2, 2) (0, 1) 69 = Inr (plate1, g1)" and
    others1: "mset (other_cells plate1 (0, 1)) =
      mset (take (fst (2::nat, 2::nat) * snd (2::nat, 2::nat) - 1) [''a'']) +
      replicate_mset (fst (2::nat, 2::nat) * snd (2::nat, 2::nat) - 1 - length [''a'']) []"
    by blast
  from gen1 have plate1: "plate1 = [[''a'', ''L''], [[], []]]"
    unfolding run1 by simp
  from generate_plate_any_label_count
    [OF randbelow_ok_lcg bounds, of "[''a'', ''b'', ''c'', ''d'', ''e'']" 69]
  obtain plate2 g2 where
    gen2: "generate_plate lcg [''a'', ''b'', ''c'', ''d'', ''e''] (2, 2) (0, 1) 69 =
      Inr (plate2, g2)" and
    others2: "mset (other_cells plate2 (0, 1)) =
      mset (take (fst (2::nat, 2::nat) * snd (2::nat, 2::nat) - 1)
        [''a'', ''b'', ''c'', ''d'', ''e'']) +
      replicate_mset (fst (2::nat, 2::nat) * snd (2::nat, 2::nat) - 1
        - length [''a'', ''b'', ''c'', ''d'', ''e'']) []"
    by blast
  from gen2 have plate2: "plate2 = [[''a'', ''L''], [''b'', ''c'']]"
    unfolding run2 by simp
  from others1 [unfolded plate1]
  have o1: "mset (other_cells [[''a'', ''L''], [[], []]] (0, 1)) = {#''a'', [], []#}"
    by (simp add: numeral_2_eq_2 numeral_3_eq_3)
  from others2 [unfolded plate2]
  have o2: "mset (other_cells [[''a'', ''L''], [''b'', ''c'']] (0, 1)) = {#''a'', ''b'', ''c''#}"
    by (simp add: numeral_3_eq_3)
  from randbelow_ok_lcg bounds run1 o1 run2 o2 show ?thesis
    by (intro conjI)
qed

section \<open>Trays: the two scripts\<close>

lemma setitem2_rename:
  "setitem2 (map (map f) plate) pos (f v) = map_sum id (map (map f)) (setitem2 plate pos v)"
proof (cases "py_index (length plate) (fst pos)")
  case (Inl e)
  then show ?thesis
    by (simp add: setitem2_def)
next
  case (Inr r)
  then have r: "r < length plate"
    by (auto simp: py_index_def Let_def split: if_splits)
  show ?thesis
  proof (cases "py_index (length (plate ! r)) (snd pos)")
    case (Inl e)
    with Inr r show ?thesis
      by (simp add: setitem2_def)
  next
    case inner: (Inr c)
    with Inr r show ?thesis
      by (simp add: setitem2_def map_update)
  qed
qed

lemma assign_rename:
  "assign (map (\<lambda>(obj, p). (f obj, p)) zs) (map (map f) plate) =
     map_sum id (map (map f)) (assign zs plate)"
proof (induction zs arbitrary: plate)
  case Nil
  show ?case by simp
next
  case (Cons z zs)
  obtain obj r c where z: "z = (obj, (r, c))"
    by (cases z) auto
  show ?case
  proof (cases "setitem2 plate (int r, int c) obj")
    case (Inl e)
    then show ?thesis
      by (simp add: z setitem2_rename)
  next
    case (Inr plate1)
    then show ?thesis
      by (simp add: z setitem2_rename Cons.IH)
  qed
qed

lemma empty_plate_rename: "f [] = [] \<Longrightarrow> map (map f) (empty_plate sz) = empty_plate sz"
  by (simp add: empty_plate_def)

lemma generate_plate_rename:
  assumes "f [] = []" and "f ''L'' = ''L''"
  shows "generate_plate rb (map f objs) sz pos g =
     map_sum id (map_prod (map (map f)) id) (generate_plate rb objs sz pos g)"
proof (cases "setitem2 (empty_plate sz) pos ''L''")
  case (Inl e)
  with setitem2_rename [of f "empty_plate sz" pos "''L''"] assms
  have "setitem2 (empty_plate sz) pos ''L'' = Inl e"
    by (simp add: empty_plate_rename)
  then show ?thesis
    by (simp add: generate_plate_def)
next
  case (Inr plate0)
  with setitem2_rename [of f "empty_plate sz" pos "''L''"] assms
  have pin: "setitem2 (empty_plate sz) pos ''L'' = Inr (map (map f) plate0)"
    by (simp add: empty_plate_rename)
  with Inr have fix0: "map (map f) plate0 = plate0"
    by simp
  show ?thesis
  proof (cases "shuffle rb (available sz pos) g")
    case (Inl e)
    with Inr show ?thesis
      by (simp add: generate_plate_def)
  next
    case sh: (Inr res)
    obtain ps g' where res: "res = (ps, g')"
      by (cases res) auto
    have "assign (zip (map f objs) ps) plate0 =
        map_sum id (map (map f)) (assign (zip objs ps) plate0)"
      using assign_rename [of f "zip objs ps" plate0]
      by (simp add: zip_map1 fix0)
    with Inr sh res show ?thesis
      by (cases "assign (zip objs ps) plate0") (simp_all add: generate_plate_def)
  qed
qed

lemma generate_plates_rename:
  assumes "f [] = []" and "f ''L'' = ''L''"
  shows "generate_plates rb (map f objs) sz pos n g =
     map_sum id (map_prod (map (map (map f))) id) (generate_plates rb objs sz pos n g)"
proof (induction n arbitrary: g)
  case 0
  show ?case by simp
next
  case (Suc n)
  show ?case
  proof (cases "generate_plate rb objs sz pos g")
    case (Inl e)
    then show ?thesis
      by (simp add: generate_plate_rename [OF assms])
  next
    case (Inr res)
    obtain plate g' where res: "res = (plate, g')"
      by (cases res) auto
    with Inr show ?thesis
      by (cases "generate_plates rb objs sz pos n g'")
        (auto simp: generate_plate_rename [OF assms] Suc.IH)
  qed
qed

lemma rename_objects_E: "map rename_E_C objects_E = objects"
  by (simp add: objects_E_def objects_def rename_E_C_def)

text \<open>
  C8. The two scripts generate the same plates up to the name of one label. From the
  same state of the random source, generate\_plate of random\_tray\_configs.py returns
  the plate that generate\_plate of random-tray-configs.py returns with every E
  renamed to C, and leaves the random source in the same state; when one raises, so
  does the other, with the same exception. The same holds for the list of plates that
  the scripts generate in one run.
\<close>

theorem generate_plate_variants_agree:
  "generate_plate rb objects plate_size position_L g =
     map_sum id (map_prod (map (map rename_E_C)) id)
       (generate_plate rb objects_E plate_size position_L g)
   \<and> generate_plates rb objects plate_size position_L n g =
     map_sum id (map_prod (map (map (map rename_E_C))) id)
       (generate_plates rb objects_E plate_size position_L n g)"
proof -
  have "rename_E_C [] = []" and "rename_E_C ''L'' = ''L''"
    by (simp_all add: rename_E_C_def)
  from generate_plate_rename [OF this, of rb objects_E] generate_plates_rename [OF this, of rb objects_E]
  show ?thesis
    by (simp add: rename_objects_E)
qed

theorem generate_plate_variants_agree_witness:
  "generate_plate lcg objects_E plate_size position_L 69 =
      Inr ([[''E'', ''P. cembra'', ''P. cembra'', ''P. cembra'', ''P. abies'',
             ''A. pseudoplatanus''],
            [''P. abies'', ''P. cembra'', ''P. abies'', ''P. cembra'', ''E'',
             ''S. aucuparia''],
            [''P. abies'', ''A. pseudoplatanus'', ''L'', ''S. aucuparia'',
             ''A. pseudoplatanus'', ''P. abies''],
            [''S. aucuparia'', ''A. pseudoplatanus'', ''A. pseudoplatanus'',
             ''S. aucuparia'', ''S. aucuparia'', ''E'']], 1039119255)
   \<and> generate_plate lcg objects plate_size position_L 69 =
      Inr ([[''C'', ''P. cembra'', ''P. cembra'', ''P. cembra'', ''P. abies'',
             ''A. pseudoplatanus''],
            [''P. abies'', ''P. cembra'', ''P. abies'', ''P. cembra'', ''C'',
             ''S. aucuparia''],
            [''P. abies'', ''A. pseudoplatanus'', ''L'', ''S. aucuparia'',
             ''A. pseudoplatanus'', ''P. abies''],
            [''S. aucuparia'', ''A. pseudoplatanus'', ''A. pseudoplatanus'',
             ''S. aucuparia'', ''S. aucuparia'', ''C'']], 1039119255)"
proof -
  have run: "generate_plate lcg objects_E plate_size position_L 69 =
      Inr ([[''E'', ''P. cembra'', ''P. cembra'', ''P. cembra'', ''P. abies'',
             ''A. pseudoplatanus''],
            [''P. abies'', ''P. cembra'', ''P. abies'', ''P. cembra'', ''E'',
             ''S. aucuparia''],
            [''P. abies'', ''A. pseudoplatanus'', ''L'', ''S. aucuparia'',
             ''A. pseudoplatanus'', ''P. abies''],
            [''S. aucuparia'', ''A. pseudoplatanus'', ''A. pseudoplatanus'',
             ''S. aucuparia'', ''S. aucuparia'', ''E'']], 1039119255)"
    by code_simp
  from generate_plate_variants_agree [of lcg 69 0]
  have "generate_plate lcg objects plate_size position_L 69 =
     map_sum id (map_prod (map (map rename_E_C)) id)
       (generate_plate lcg objects_E plate_size position_L 69)"
    by (rule conjunct1)
  then have "generate_plate lcg objects plate_size position_L 69 =
      Inr ([[''C'', ''P. cembra'', ''P. cembra'', ''P. cembra'', ''P. abies'',
             ''A. pseudoplatanus''],
            [''P. abies'', ''P. cembra'', ''P. abies'', ''P. cembra'', ''C'',
             ''S. aucuparia''],
            [''P. abies'', ''A. pseudoplatanus'', ''L'', ''S. aucuparia'',
             ''A. pseudoplatanus'', ''P. abies''],
            [''S. aucuparia'', ''A. pseudoplatanus'', ''A. pseudoplatanus'',
             ''S. aucuparia'', ''S. aucuparia'', ''C'']], 1039119255)"
    unfolding run by (simp add: rename_E_C_def)
  with run show ?thesis
    by (intro conjI)
qed

section \<open>Trays: the same seed gives the same trays\<close>

text \<open>
  The plate depends on the random source only through the values it draws: two
  sources, of whatever kind, whose states are related by a relation that the draws
  preserve and under which the draws agree, give the same plate.
\<close>

lemma shuffle_from_same_draws:
  assumes sim: "\<And>a b n. R a b \<Longrightarrow>
      fst (rb1 a n) = fst (rb2 b n) \<and> R (snd (rb1 a n)) (snd (rb2 b n))"
    and "R g1 g2"
  shows "rel_sum (=) (rel_prod (=) R) (shuffle_from rb1 k xs g1) (shuffle_from rb2 k xs g2)"
  using assms(2)
proof (induction k arbitrary: xs g1 g2)
  case 0
  then show ?case by simp
next
  case (Suc k)
  obtain j1 a where d1: "rb1 g1 (Suc (Suc k)) = (j1, a)"
    by (cases "rb1 g1 (Suc (Suc k))") auto
  obtain j2 b where d2: "rb2 g2 (Suc (Suc k)) = (j2, b)"
    by (cases "rb2 g2 (Suc (Suc k))") auto
  from sim [OF Suc.prems, of "Suc (Suc k)"] d1 d2 have j: "j1 = j2" and R: "R a b"
    by simp_all
  from Suc.IH [OF R] show ?case
    by (simp add: d1 d2 j)
qed

lemma generate_plate_same_draws:
  assumes sim: "\<And>a b n. R a b \<Longrightarrow>
      fst (rb1 a n) = fst (rb2 b n) \<and> R (snd (rb1 a n)) (snd (rb2 b n))"
    and "R g1 g2"
  shows "rel_sum (=) (rel_prod (=) R)
     (generate_plate rb1 objs sz pos g1) (generate_plate rb2 objs sz pos g2)"
proof -
  have "rel_sum (=) (rel_prod (=) R)
      (shuffle rb1 (available sz pos) g1) (shuffle rb2 (available sz pos) g2)"
    unfolding shuffle_def using assms by (rule shuffle_from_same_draws)
  then show ?thesis
    unfolding generate_plate_def
    by (cases "shuffle rb1 (available sz pos) g1"; cases "shuffle rb2 (available sz pos) g2")
      (auto split: sum.splits)
qed

lemma generate_plate_returns:
  assumes "randbelow_ok rb" and "pinned_in_bounds sz pos"
  shows "\<exists>plate g'. generate_plate rb objs sz pos g = Inr (plate, g')"
proof -
  from assms(2) obtain rows cols pr pc where
    sz: "sz = (rows, cols)" and pos: "pos = (int pr, int pc)" and
    pr: "pr < rows" and pc: "pc < cols"
    by (rule pinned_in_boundsE)
  from generate_plate_labels [OF assms(1) pr pc, of objs g] show ?thesis
    unfolding sz pos by blast
qed

lemma generate_plates_runs:
  assumes "randbelow_ok rb" and "pinned_in_bounds sz pos"
  shows "\<exists>plates g'. generate_plates rb objs sz pos n g = Inr (plates, g') \<and> length plates = n"
proof (induction n arbitrary: g)
  case 0
  show ?case by simp
next
  case (Suc n)
  from assms(2) obtain rows cols pr pc where
    sz: "sz = (rows, cols)" and pos: "pos = (int pr, int pc)" and
    pr: "pr < rows" and pc: "pc < cols"
    by (rule pinned_in_boundsE)
  from generate_plate_labels [OF assms(1) pr pc, of objs g] obtain plate g1 where
    one: "generate_plate rb objs sz pos g = Inr (plate, g1)"
    unfolding sz pos by blast
  from Suc.IH [of g1] obtain plates g' where
    "generate_plates rb objs sz pos n g1 = Inr (plates, g')" and "length plates = n"
    by blast
  with one show ?case
    by simp
qed

text \<open>
  C4. Two runs that seed the random source with the same seed and read the same list of
  fill labels, in the same order, return the same tray, and the same list of trays when
  they generate several in a row: for a valid layout and a random source that keeps the
  contract of randbelow each run returns its trays, and the trays of the two runs are
  equal. In the model a run is the function applied to the labels, the size, the pinned
  position and the state the seed gives; nothing else is read.
\<close>

theorem generate_plate_reproducible:
  assumes "randbelow_ok rb" and "valid_layout sz pos objs1"
    and "seed1 = seed2" and "objs1 = objs2"
  shows "(\<exists>plate g'. generate_plate rb objs1 sz pos (seed seed1) = Inr (plate, g')
        \<and> generate_plate rb objs2 sz pos (seed seed2) = Inr (plate, g'))
    \<and> (\<exists>plates g'. generate_plates rb objs1 sz pos n (seed seed1) = Inr (plates, g')
        \<and> generate_plates rb objs2 sz pos n (seed seed2) = Inr (plates, g')
        \<and> length plates = n)"
proof -
  from assms(2) have bounds: "pinned_in_bounds sz pos"
    by (simp add: valid_layout_def)
  have same: "rel_sum (=) (rel_prod (=) (=))
      (generate_plate rb objs1 sz pos (seed seed1)) (generate_plate rb objs1 sz pos (seed seed2))"
    by (rule generate_plate_same_draws [where R = "(=)"]) (simp_all add: assms(3))
  from generate_plate_returns [OF assms(1) bounds, of objs1 "seed seed1"]
  obtain plate g' where one: "generate_plate rb objs1 sz pos (seed seed1) = Inr (plate, g')"
    by blast
  with same have two: "generate_plate rb objs1 sz pos (seed seed2) = Inr (plate, g')"
    by (cases "generate_plate rb objs1 sz pos (seed seed2)") (auto simp: prod.rel_eq)
  from generate_plates_runs [OF assms(1) bounds, of objs1 n "seed seed1"]
  obtain plates g'' where
    many: "generate_plates rb objs1 sz pos n (seed seed1) = Inr (plates, g'')"
    and len: "length plates = n"
    by blast
  from one two many len show ?thesis
    unfolding assms(3) [symmetric] assms(4) [symmetric] by blast
qed

theorem generate_plate_reproducible_witness:
  "randbelow_ok lcg \<and> valid_layout plate_size position_L objects
   \<and> (\<exists>plate g'. generate_plate lcg objects plate_size position_L (id (69::int)) = Inr (plate, g')
        \<and> generate_plate lcg objects plate_size position_L (id 69) = Inr (plate, g'))
   \<and> (\<exists>plates g'. generate_plates lcg objects plate_size position_L num_plates (id 69) =
          Inr (plates, g')
        \<and> length plates = 72)"
proof -
  have valid: "valid_layout plate_size position_L objects"
    by (simp add: valid_layout_def pinned_in_bounds_def plate_size_def position_L_def
        objects_def)
  from generate_plate_reproducible
    [OF randbelow_ok_lcg valid refl refl, of id 69 num_plates]
  show ?thesis
    using randbelow_ok_lcg valid by (auto simp: num_plates_def)
qed

section \<open>The heap of a call\<close>

lemma new_rows_eq:
  "new_rows n cols h =
     ([length h..<length h + n], h @ replicate n (replicate cols (Str [])))"
proof (induction n arbitrary: h)
  case 0
  show ?case by simp
next
  case (Suc n)
  have row: "map (\<lambda>_. Str []) [0..<cols] = replicate cols (Str [])"
    by (simp add: map_replicate_const)
  have "length h # [Suc (length h)..<Suc (length h + n)] = [length h..<Suc (length h + n)]"
    by (simp add: upt_conv_Cons)
  then show ?case
    by (simp add: alloc_def row Suc.IH replicate_app_Cons_same)
qed

lemma empty_plate_heap:
  "plate_heap h (empty_plate (rows, cols)) [] =
     h @ replicate rows (replicate cols (Str [])) @ [map Ref [length h..<length h + rows]]"
  by (simp add: plate_heap_def empty_plate_def map_replicate_const)

lemma plate_heap_before:
  "a < length before \<Longrightarrow> plate_heap before plate rest ! a = before ! a"
  by (simp add: plate_heap_def nth_append)

lemma plate_heap_row:
  "r < length plate \<Longrightarrow>
     plate_heap before plate rest ! (length before + r) = map Str (plate ! r)"
  by (simp add: plate_heap_def nth_append)

lemma plate_heap_plate:
  "plate_heap before plate rest ! (length before + length plate) =
     map Ref [length before..<length before + length plate]"
  by (simp add: plate_heap_def nth_append)

lemma plate_heap_rest:
  "i < length rest \<Longrightarrow>
     plate_heap before plate rest ! (length before + length plate + 1 + i) = rest ! i"
  by (simp add: plate_heap_def nth_append)

lemma plate_heap_update_row:
  assumes "r < length plate"
  shows "(plate_heap before plate rest)[length before + r := map Str row] =
     plate_heap before (plate[r := row]) rest"
  using assms by (simp add: plate_heap_def list_update_append map_update)

lemma take_plate_heap: "take (length before) (plate_heap before plate rest) = before"
  by (simp add: plate_heap_def)

lemma heap_rows_plate_heap:
  "heap_rows (plate_heap before plate rest) (length before + length plate) =
     map (map Str) plate"
proof (rule nth_equalityI)
  show "length (heap_rows (plate_heap before plate rest) (length before + length plate)) =
      length (map (map Str) plate)"
    by (simp add: heap_rows_def plate_heap_plate)
next
  fix i
  assume "i < length (heap_rows (plate_heap before plate rest) (length before + length plate))"
  then have i: "i < length plate"
    by (simp add: heap_rows_def plate_heap_plate)
  then show "heap_rows (plate_heap before plate rest) (length before + length plate) ! i =
      map (map Str) plate ! i"
    by (simp add: heap_rows_def plate_heap_plate plate_heap_row)
qed

lemma py_index_less: "py_index n i = Inr r \<Longrightarrow> r < n"
  by (auto simp: py_index_def Let_def split: if_splits)

lemma setitem2_length: "setitem2 plate pos v = Inr plate' \<Longrightarrow> length plate' = length plate"
  by (auto simp: setitem2_def split: sum.splits)

lemma heap_setitem2_plate_heap:
  "heap_setitem2 (plate_heap before plate rest) (length before + length plate) pos (Str s) =
     map_sum id (\<lambda>plate'. plate_heap before plate' rest) (setitem2 plate pos s)"
proof (cases "py_index (length plate) (fst pos)")
  case (Inl e)
  then show ?thesis
    by (simp add: heap_setitem2_def setitem2_def plate_heap_plate)
next
  case (Inr r)
  then have r: "r < length plate"
    by (rule py_index_less)
  then have ref: "plate_heap before plate rest ! (length before + length plate) ! r =
      Ref (length before + r)"
    by (simp add: plate_heap_plate)
  show ?thesis
  proof (cases "py_index (length (plate ! r)) (snd pos)")
    case (Inl e)
    with Inr r ref show ?thesis
      by (simp add: heap_setitem2_def setitem2_def plate_heap_plate plate_heap_row)
  next
    case inner: (Inr c)
    have "(plate_heap before plate rest)[length before + r := (map Str (plate ! r))[c := Str s]] =
        plate_heap before (plate[r := (plate ! r)[c := s]]) rest"
      using plate_heap_update_row [OF r, of before rest "(plate ! r)[c := s]"]
      by (simp add: map_update)
    with Inr inner r ref show ?thesis
      by (simp add: heap_setitem2_def setitem2_def plate_heap_plate plate_heap_row)
  qed
qed

lemma shuffle_from_map:
  "shuffle_from rb k (map f xs) g = map_sum id (map_prod (map f) id) (shuffle_from rb k xs g)"
proof (induction k arbitrary: xs g)
  case 0
  show ?case by simp
next
  case (Suc k)
  obtain j g1 where draw: "rb g (Suc (Suc k)) = (j, g1)"
    by (cases "rb g (Suc (Suc k))") auto
  show ?case
  proof (cases "j < length xs \<and> Suc k < length xs")
    case True
    then have "(map f xs)[Suc k := map f xs ! j, j := map f xs ! Suc k] =
        map f (xs[Suc k := xs ! j, j := xs ! Suc k])"
      by (simp add: map_update)
    with True show ?thesis
      by (simp add: draw Suc.IH)
  next
    case False
    then show ?thesis
      by (auto simp: draw)
  qed
qed

lemma shuffle_map:
  "shuffle rb (map f xs) g = map_sum id (map_prod (map f) id) (shuffle rb xs g)"
  by (simp add: shuffle_def shuffle_from_map)

lemma length_plate_heap:
  "length (plate_heap before plate rest) = Suc (length before + length plate) + length rest"
  by (simp add: plate_heap_def)

lemma plate_heap_append: "plate_heap before plate [] @ [xs] = plate_heap before plate [xs]"
  by (simp add: plate_heap_def)

lemma plate_heap_update_rest:
  "(plate_heap before plate [xs])[Suc (length before + length plate) := ys] =
     plate_heap before plate [ys]"
  by (simp add: plate_heap_def list_update_append)

lemma assign_heap_plate_heap:
  assumes "objects_ref < length before" and "before ! objects_ref = map Str objs"
    and "k = min (length objs - i) (length ps - i)"
  shows "\<exists>plate'.
      assign_heap k i objects_ref (Suc (length before + length plate))
        (length before + length plate)
        (plate_heap before plate [map (\<lambda>(r, c). Pos r c) ps]) =
      (plate_heap before plate' [map (\<lambda>(r, c). Pos r c) ps],
       case assign (zip (drop i objs) (drop i ps)) plate of Inl e \<Rightarrow> Some e | Inr _ \<Rightarrow> None)
    \<and> length plate' = length plate
    \<and> (\<forall>pl. assign (zip (drop i objs) (drop i ps)) plate = Inr pl \<longrightarrow> plate' = pl)"
  using assms(3)
proof (induction k arbitrary: i plate)
  case 0
  then have "drop i objs = [] \<or> drop i ps = []"
    by (auto simp: min_def split: if_splits)
  then have z: "assign (zip (drop i objs) (drop i ps)) plate = Inr plate"
    by auto
  show ?case
    by (rule exI [of _ plate]) (simp add: z)
next
  case (Suc k)
  let ?pos = "map (\<lambda>(r, c). Pos r c) ps"
  let ?h = "plate_heap before plate [?pos]"
  from Suc.prems have i: "i < length objs" "i < length ps"
    and k: "k = min (length objs - Suc i) (length ps - Suc i)"
    by (auto simp: min_def split: if_splits)
  obtain r c where rc: "ps ! i = (r, c)"
    by (cases "ps ! i") auto
  have "?h ! (length before + length plate + 1 + 0) = [?pos] ! 0"
    by (rule plate_heap_rest) simp
  then have pos_i: "?h ! (Suc (length before + length plate)) ! i = Pos r c"
    using i rc by simp
  have obj_i: "?h ! objects_ref ! i = Str (objs ! i)"
    using assms(1,2) i by (simp add: plate_heap_before)
  have upd: "heap_setitem2 ?h (length before + length plate) (int r, int c) (Str (objs ! i)) =
      map_sum id (\<lambda>plate'. plate_heap before plate' [?pos])
        (setitem2 plate (int r, int c) (objs ! i))"
    by (rule heap_setitem2_plate_heap)
  have zip_i: "zip (drop i objs) (drop i ps) =
      (objs ! i, (r, c)) # zip (drop (Suc i) objs) (drop (Suc i) ps)"
    using i rc by (simp add: Cons_nth_drop_Suc [symmetric])
  show ?case
  proof (cases "setitem2 plate (int r, int c) (objs ! i)")
    case (Inl e)
    then have "assign_heap (Suc k) i objects_ref (Suc (length before + length plate))
        (length before + length plate) ?h = (?h, Some e)"
      by (simp add: pos_i obj_i upd)
    with Inl show ?thesis
      by (auto simp: zip_i)
  next
    case (Inr plate1)
    then have len1: "length plate1 = length plate"
      by (rule setitem2_length)
    from Suc.IH [OF k, of plate1] obtain plate' where
      run: "assign_heap k (Suc i) objects_ref (Suc (length before + length plate1))
          (length before + length plate1) (plate_heap before plate1 [?pos]) =
        (plate_heap before plate' [?pos],
         case assign (zip (drop (Suc i) objs) (drop (Suc i) ps)) plate1 of
           Inl e \<Rightarrow> Some e | Inr _ \<Rightarrow> None)" and
      len: "length plate' = length plate1" and
      same: "\<forall>pl. assign (zip (drop (Suc i) objs) (drop (Suc i) ps)) plate1 = Inr pl
        \<longrightarrow> plate' = pl"
      by blast
    have "assign_heap (Suc k) i objects_ref (Suc (length before + length plate))
        (length before + length plate) ?h =
      assign_heap k (Suc i) objects_ref (Suc (length before + length plate1))
        (length before + length plate1) (plate_heap before plate1 [?pos])"
      by (simp add: pos_i obj_i upd Inr len1)
    with run len same show ?thesis
      by (auto simp: zip_i Inr len1)
  qed
qed

lemma generate_plate_heap_run:
  assumes "objects_ref < length h" and "h ! objects_ref = map Str objs"
  shows "\<exists>plate' rest.
      generate_plate_heap rb objects_ref (rows, cols) pos h g =
        (plate_heap h plate' rest,
         map_sum id (\<lambda>(pl, g'). (length h + rows, g')) (generate_plate rb objs (rows, cols) pos g))
    \<and> length plate' = rows
    \<and> (\<forall>pl g'. generate_plate rb objs (rows, cols) pos g = Inr (pl, g') \<longrightarrow> plate' = pl)"
proof -
  let ?empty = "empty_plate (rows, cols)"
  let ?POS = "\<lambda>(r :: nat, c :: nat). Pos r c"
  have len_empty: "length ?empty = rows"
    by (simp add: empty_plate_def)
  have rows: "new_rows rows cols h =
      ([length h..<length h + rows], h @ replicate rows (replicate cols (Str [])))"
    by (rule new_rows_eq)
  have h2: "alloc (h @ replicate rows (replicate cols (Str [])))
        (map Ref [length h..<length h + rows]) =
      (length h + rows, plate_heap h ?empty [])"
    by (simp add: alloc_def empty_plate_heap)
  have pin: "heap_setitem2 (plate_heap h ?empty []) (length h + rows) pos (Str ''L'') =
      map_sum id (\<lambda>plate'. plate_heap h plate' []) (setitem2 ?empty pos ''L'')"
    using heap_setitem2_plate_heap [of h ?empty "[]" pos "''L''"] by (simp add: len_empty)
  show ?thesis
  proof (cases "setitem2 ?empty pos ''L''")
    case (Inl e)
    then have "generate_plate_heap rb objects_ref (rows, cols) pos h g =
        (plate_heap h ?empty [], Inl e)"
      by (simp add: generate_plate_heap_def rows h2 pin)
    with Inl len_empty show ?thesis
      by (auto simp: generate_plate_def)
  next
    case (Inr plate0)
    then have len0: "length plate0 = rows"
      using setitem2_length [of ?empty pos "''L''" plate0] by (simp add: len_empty)
    let ?h4 = "plate_heap h plate0 [map ?POS (available (rows, cols) pos)]"
    have h4: "alloc (plate_heap h plate0 []) (map ?POS (available (rows, cols) pos)) =
        (Suc (length h + rows), ?h4)"
      by (simp add: alloc_def length_plate_heap plate_heap_append len0)
    have "?h4 ! (length h + length plate0 + 1 + 0) = [map ?POS (available (rows, cols) pos)] ! 0"
      by (rule plate_heap_rest) simp
    then have read: "?h4 ! (Suc (length h + rows)) = map ?POS (available (rows, cols) pos)"
      by (simp add: len0)
    have sh: "shuffle rb (map ?POS (available (rows, cols) pos)) g =
        map_sum id (map_prod (map ?POS) id) (shuffle rb (available (rows, cols) pos) g)"
      by (rule shuffle_map)
    show ?thesis
    proof (cases "shuffle rb (available (rows, cols) pos) g")
      case (Inl e)
      then have "generate_plate_heap rb objects_ref (rows, cols) pos h g = (?h4, Inl e)"
        by (simp add: generate_plate_heap_def rows h2 pin Inr h4 read sh)
      with Inl Inr len0 show ?thesis
        by (auto simp: generate_plate_def)
    next
      case shuffled: (Inr res)
      obtain ps g' where res: "res = (ps, g')"
        by (cases res) auto
      let ?h5 = "plate_heap h plate0 [map ?POS ps]"
      have h5: "?h4[Suc (length h + rows) := map ?POS ps] = ?h5"
        using plate_heap_update_rest [of h plate0] by (simp add: len0)
      have "?h5 ! (length h + length plate0 + 1 + 0) = [map ?POS ps] ! 0"
        by (rule plate_heap_rest) simp
      then have read5: "?h5 ! (Suc (length h + rows)) = map ?POS ps"
        by (simp add: len0)
      have obj5: "?h5 ! objects_ref = map Str objs"
        using assms by (simp add: plate_heap_before)
      from assign_heap_plate_heap
        [OF assms, of "min (length objs) (length ps)" 0 ps plate0]
      obtain plate' where
        run: "assign_heap (min (length objs) (length ps)) 0 objects_ref
            (Suc (length h + rows)) (length h + rows) ?h5 =
          (plate_heap h plate' [map ?POS ps],
           case assign (zip objs ps) plate0 of Inl e \<Rightarrow> Some e | Inr _ \<Rightarrow> None)" and
        len: "length plate' = rows" and
        same: "\<forall>pl. assign (zip objs ps) plate0 = Inr pl \<longrightarrow> plate' = pl"
        by (auto simp: len0)
      have "generate_plate_heap rb objects_ref (rows, cols) pos h g =
          (plate_heap h plate' [map ?POS ps],
           case assign (zip objs ps) plate0 of
             Inl e \<Rightarrow> Inl e | Inr _ \<Rightarrow> Inr (length h + rows, g'))"
        by (simp add: generate_plate_heap_def rows h2 pin Inr h4 read sh shuffled res h5
            read5 obj5 run Let_def split: sum.splits)
      with Inr shuffled res len same show ?thesis
        by (auto simp: generate_plate_def split: sum.splits)
    qed
  qed
qed

lemma generate_plate_shuffle:
  "generate_plate rb objs sz pos g = Inr (plate, g') \<Longrightarrow>
     \<exists>ps. shuffle rb (available sz pos) g = Inr (ps, g')"
  by (auto simp: generate_plate_def split: sum.splits)

section \<open>What a call changes\<close>

text \<open>
  C9. A call of generate\_plate changes nothing that existed before it. On a heap where
  the global objects names a list of labels, every list object that was on the heap
  before the call is the same after it, the list of labels among them; this holds
  also when the call raises. The plate returned and its rows are new objects, each row
  an object of its own, and they hold the plate that the function computes from the
  labels, the size, the pinned position and the state of the random source. The size
  and the pinned position are tuples, which nothing can change. The state of the random
  source after the call is the state after the draws of the one shuffle. A call of
  quantify\_seeds reads its table and prints: what was printed before stays, and the
  reports of the call are added after it; the table is a value of the model and no
  operation of the function assigns to it.
\<close>

theorem generate_plate_frame:
  assumes "objects_ref < length h" and "h ! objects_ref = map Str objs"
  shows "(case generate_plate_heap rb objects_ref sz pos h g of
      (h', result) \<Rightarrow>
        take (length h) h' = h
      \<and> h' ! objects_ref = map Str objs
      \<and> (case result of
           Inl e \<Rightarrow> generate_plate rb objs sz pos g = Inl e
         | Inr (plate, g') \<Rightarrow>
             length h \<le> plate \<and> plate < length h'
           \<and> h' ! plate = map Ref [length h..<length h + fst sz]
           \<and> (\<exists>rows. generate_plate rb objs sz pos g = Inr (rows, g')
                \<and> heap_rows h' plate = map (map Str) rows)
           \<and> (\<exists>ps. shuffle rb (available sz pos) g = Inr (ps, g'))))
    \<and> (\<exists>new. quantify_seeds_loop tree_dict out = (out @ new, snd (quantify_seeds tree_dict))
          \<and> new = fst (quantify_seeds tree_dict))"
proof -
  obtain rows cols where sz: "sz = (rows, cols)"
    by (cases sz) auto
  from generate_plate_heap_run [OF assms, of rb rows cols pos g] obtain plate' rest where
    run: "generate_plate_heap rb objects_ref (rows, cols) pos h g =
      (plate_heap h plate' rest,
       map_sum id (\<lambda>(pl, g'). (length h + rows, g')) (generate_plate rb objs (rows, cols) pos g))"
    and len: "length plate' = rows"
    and same: "\<forall>pl g'. generate_plate rb objs (rows, cols) pos g = Inr (pl, g') \<longrightarrow> plate' = pl"
    by blast
  let ?h' = "plate_heap h plate' rest"
  have frame: "take (length h) ?h' = h"
    by (rule take_plate_heap)
  have labels: "?h' ! objects_ref = map Str objs"
    using assms by (simp add: plate_heap_before)
  have tray: "(case map_sum id (\<lambda>(pl, g'). (length h + rows, g'))
        (generate_plate rb objs (rows, cols) pos g) of
      Inl e \<Rightarrow> generate_plate rb objs (rows, cols) pos g = Inl e
    | Inr (plate, g') \<Rightarrow>
        length h \<le> plate \<and> plate < length ?h'
      \<and> ?h' ! plate = map Ref [length h..<length h + fst (rows, cols)]
      \<and> (\<exists>rs. generate_plate rb objs (rows, cols) pos g = Inr (rs, g')
           \<and> heap_rows ?h' plate = map (map Str) rs)
      \<and> (\<exists>ps. shuffle rb (available (rows, cols) pos) g = Inr (ps, g')))"
  proof (cases "generate_plate rb objs (rows, cols) pos g")
    case (Inl e)
    then show ?thesis by simp
  next
    case (Inr res)
    obtain pl g' where res: "res = (pl, g')"
      by (cases res) auto
    from same Inr res have pl: "plate' = pl"
      by simp
    have "?h' ! (length h + length plate') = map Ref [length h..<length h + length plate']"
      by (rule plate_heap_plate)
    then have refs: "?h' ! (length h + rows) = map Ref [length h..<length h + rows]"
      by (simp add: len)
    have "heap_rows ?h' (length h + length plate') = map (map Str) plate'"
      by (rule heap_rows_plate_heap)
    then have rows: "heap_rows ?h' (length h + rows) = map (map Str) pl"
      using len by (simp add: pl)
    from Inr res have "\<exists>ps. shuffle rb (available (rows, cols) pos) g = Inr (ps, g')"
      by (auto dest: generate_plate_shuffle)
    with Inr res refs rows show ?thesis
      by (simp add: length_plate_heap len)
  qed
  have printed: "\<exists>new. quantify_seeds_loop tree_dict out =
        (out @ new, snd (quantify_seeds tree_dict))
      \<and> new = fst (quantify_seeds tree_dict)"
    by (simp add: quantify_seeds_loop_estimates quantify_seeds_estimates)
  from frame labels tray printed show ?thesis
    unfolding sz run by simp
qed

theorem generate_plate_frame_witness:
  "(1::nat) < length [[Str ''seen before''], [Str ''a'', Str ''b'', Str ''c'']]
   \<and> [[Str ''seen before''], [Str ''a'', Str ''b'', Str ''c'']] ! 1 = map Str [''a'', ''b'', ''c'']
   \<and> generate_plate_heap lcg 1 (2, 2) (0, 1)
        [[Str ''seen before''], [Str ''a'', Str ''b'', Str ''c'']] 69 =
      ([[Str ''seen before''], [Str ''a'', Str ''b'', Str ''c''],
        [Str ''a'', Str ''L''], [Str ''b'', Str ''c''],
        [Ref 2, Ref 3],
        [Pos 0 0, Pos 1 0, Pos 1 1]], Inr (4, 1236251851))
   \<and> generate_plate lcg [''a'', ''b'', ''c''] (2, 2) (0, 1) 69 =
      Inr ([[''a'', ''L''], [''b'', ''c'']], 1236251851)"
proof -
  let ?h = "[[Str ''seen before''], [Str ''a'', Str ''b'', Str ''c'']]"
  have a: "(1::nat) < length ?h"
    by simp
  have b: "?h ! 1 = map Str [''a'', ''b'', ''c'']"
    by simp
  have run: "generate_plate_heap lcg 1 (2, 2) (0, 1) ?h 69 =
      ([[Str ''seen before''], [Str ''a'', Str ''b'', Str ''c''],
        [Str ''a'', Str ''L''], [Str ''b'', Str ''c''],
        [Ref 2, Ref 3],
        [Pos 0 0, Pos 1 0, Pos 1 1]], Inr (4, 1236251851))"
    by code_simp
  from generate_plate_frame [OF a b, of lcg "(2, 2)" "(0, 1)" 69]
  have "\<exists>rows. generate_plate lcg [''a'', ''b'', ''c''] (2, 2) (0, 1) 69 = Inr (rows, 1236251851)
      \<and> heap_rows [[Str ''seen before''], [Str ''a'', Str ''b'', Str ''c''],
        [Str ''a'', Str ''L''], [Str ''b'', Str ''c''],
        [Ref 2, Ref 3],
        [Pos 0 0, Pos 1 0, Pos 1 1]] 4 = map (map Str) rows"
    unfolding run by simp
  then obtain rows where
    gen: "generate_plate lcg [''a'', ''b'', ''c''] (2, 2) (0, 1) 69 = Inr (rows, 1236251851)" and
    rows: "heap_rows [[Str ''seen before''], [Str ''a'', Str ''b'', Str ''c''],
        [Str ''a'', Str ''L''], [Str ''b'', Str ''c''],
        [Ref 2, Ref 3],
        [Pos 0 0, Pos 1 0, Pos 1 1]] 4 = map (map Str) rows"
    by blast
  from rows have "map (map Str) rows = map (map Str) [[''a'', ''L''], [''b'', ''c'']]"
    by (simp add: heap_rows_def)
  moreover have "inj (map (map Str))"
    by (intro inj_mapI) (simp add: inj_on_def)
  ultimately have "rows = [[''a'', ''L''], [''b'', ''c'']]"
    by (rule injD [rotated])
  with gen have "generate_plate lcg [''a'', ''b'', ''c''] (2, 2) (0, 1) 69 =
      Inr ([[''a'', ''L''], [''b'', ''c'']], 1236251851)"
    by simp
  with a b run show ?thesis
    by (intro conjI)
qed

end
